theory Spec2Isabelle
  imports Main
begin

section \<open>Text: characters and the string operations of the source\<close>

text \<open>
  The extraction core of \<^verbatim>\<open>src/app.py\<close> (\<^verbatim>\<open>extract_marksheet_blocks\<close>) works on
  Python \<^verbatim>\<open>str\<close> values. Here a string is a list of 8-bit characters, read as the
  code points 0..255; the character classes and case mappings below are Python's,
  restricted to that range. Every statement below about "every text" is therefore a
  statement about text whose characters all lie below code point 256. Text with other
  characters is not covered: there \<^verbatim>\<open>\d\<close> also matches the decimal digits of other scripts
  (the Devanagari digits of a Hindi name line, for one), and \<^verbatim>\<open>re.IGNORECASE\<close> also matches
  U+017F with s, U+0130 and U+0131 with i, and U+212A with k.
\<close>

definition cp :: "char \<Rightarrow> nat" where
  "cp c = of_char c"

text \<open>\<^verbatim>\<open>str.isspace\<close> and the class \<^verbatim>\<open>\s\<close> of a str pattern: TAB..CR, FS..US, space,
  NEL (0x85) and NBSP (0xA0).\<close>

definition is_space :: "char \<Rightarrow> bool" where
  "is_space c = (let n = cp c in (9 \<le> n \<and> n \<le> 13) \<or> (28 \<le> n \<and> n \<le> 32) \<or> n = 133 \<or> n = 160)"

text \<open>The class \<^verbatim>\<open>\d\<close> (decimal digits; below 256 only 0..9).\<close>

definition is_digit :: "char \<Rightarrow> bool" where
  "is_digit c = (let n = cp c in 48 \<le> n \<and> n \<le> 57)"

definition is_upper_ascii :: "char \<Rightarrow> bool" where
  "is_upper_ascii c = (let n = cp c in 65 \<le> n \<and> n \<le> 90)"

definition is_lower_ascii :: "char \<Rightarrow> bool" where
  "is_lower_ascii c = (let n = cp c in 97 \<le> n \<and> n \<le> 122)"

definition is_alpha_ascii :: "char \<Rightarrow> bool" where
  "is_alpha_ascii c = (is_upper_ascii c \<or> is_lower_ascii c)"

text \<open>Word characters of \<^verbatim>\<open>\b\<close> (\<^verbatim>\<open>\w\<close>): alphanumerics and the underscore; below 256
  the alphanumerics are the ASCII ones, the superscripts and fractions (No), and the
  Latin-1 letters.\<close>

definition is_word :: "char \<Rightarrow> bool" where
  "is_word c = (let n = cp c in is_digit c \<or> is_alpha_ascii c \<or> n = 95
      \<or> n = 170 \<or> n = 178 \<or> n = 179 \<or> n = 181 \<or> n = 185 \<or> n = 186
      \<or> (188 \<le> n \<and> n \<le> 190) \<or> (192 \<le> n \<and> n \<noteq> 215 \<and> n \<noteq> 247))"

text \<open>\<^verbatim>\<open>str.lower\<close>, one character: A..Z and the Latin-1 capitals (0xC0..0xDE without
  the multiplication sign) move up by 32.\<close>

definition lower_char :: "char \<Rightarrow> char" where
  "lower_char c = (let n = cp c in
     if (65 \<le> n \<and> n \<le> 90) \<or> (192 \<le> n \<and> n \<le> 222 \<and> n \<noteq> 215) then char_of (n + 32) else c)"

text \<open>Upper-casing of one character, for \<^verbatim>\<open>str.capitalize\<close>: a..z and the Latin-1 small
  letters 0xE0..0xFE without the division sign move down by 32. The three characters
  below 256 whose upper case leaves the range (0xB5, 0xDF, 0xFF) are left unchanged; the
  source capitalises only a word matched by the Type alternatives of the row pattern.\<close>

definition upper_char :: "char \<Rightarrow> char" where
  "upper_char c = (let n = cp c in
     if (97 \<le> n \<and> n \<le> 122) \<or> (224 \<le> n \<and> n \<le> 254 \<and> n \<noteq> 247) then char_of (n - 32) else c)"

definition lower :: "string \<Rightarrow> string" where
  "lower s = map lower_char s"

fun capitalize :: "string \<Rightarrow> string" where
  "capitalize [] = []"
| "capitalize (c # cs) = upper_char c # map lower_char cs"

text \<open>\<^verbatim>\<open>str.strip()\<close>, \<^verbatim>\<open>str.rstrip(":")\<close>.\<close>

definition lstrip :: "string \<Rightarrow> string" where
  "lstrip s = dropWhile is_space s"

definition rstrip :: "string \<Rightarrow> string" where
  "rstrip s = rev (dropWhile is_space (rev s))"

definition strip :: "string \<Rightarrow> string" where
  "strip s = rstrip (lstrip s)"

definition rstrip_colon :: "string \<Rightarrow> string" where
  "rstrip_colon s = rev (dropWhile (\<lambda>c. c = CHR '':'') (rev s))"

section \<open>Regular expressions: the backtracking matcher of Python's re\<close>

text \<open>
  The patterns of the source use literals, character classes, greedy and lazy
  repetition of one character class, bounded repetition, optional groups, alternation,
  capture groups, the anchors \<^verbatim>\<open>^\<close> and \<^verbatim>\<open>$\<close>, \<^verbatim>\<open>\b\<close> and one lookahead. A pattern is a
  value of \<open>rx\<close>; \<open>rxm\<close> lists every way the pattern matches at the current position,
  in the order in which the backtracking matcher tries them, so the head of the list is
  the match Python reports.
\<close>

datatype cset =
    Space                 \<comment> \<open>\<^verbatim>\<open>\s\<close>\<close>
  | Digit                 \<comment> \<open>\<^verbatim>\<open>\d\<close>\<close>
  | Dot                   \<comment> \<open>\<^verbatim>\<open>.\<close>: any character but a newline\<close>
  | One char              \<comment> \<open>a single character in a bracket class\<close>
  | Range char char       \<comment> \<open>\<^verbatim>\<open>[a-b]\<close>\<close>
  | Union cset cset

datatype rx =
    Lit char
  | Cls cset
  | Seq rx rx
  | Alt rx rx
  | Opt rx                \<comment> \<open>\<^verbatim>\<open>r?\<close>, greedy\<close>
  | Star cset             \<comment> \<open>\<^verbatim>\<open>c*\<close>, greedy\<close>
  | Plus cset             \<comment> \<open>\<^verbatim>\<open>c+\<close>, greedy\<close>
  | LazyPlus cset         \<comment> \<open>\<^verbatim>\<open>c+?\<close>\<close>
  | Rep nat nat cset      \<comment> \<open>\<^verbatim>\<open>c{lo,hi}\<close>, greedy\<close>
  | Grp nat rx            \<comment> \<open>capture group number n\<close>
  | Bol                   \<comment> \<open>\<^verbatim>\<open>^\<close>\<close>
  | Eol                   \<comment> \<open>\<^verbatim>\<open>$\<close>\<close>
  | WordB                 \<comment> \<open>\<^verbatim>\<open>\b\<close>\<close>
  | Ahead rx              \<comment> \<open>\<^verbatim>\<open>(?=r)\<close>\<close>

type_synonym caps = "nat \<Rightarrow> string option"

text \<open>Character comparison; \<open>ci\<close> is the flag \<^verbatim>\<open>re.IGNORECASE\<close>. Below code point 256 two
  characters match under the flag exactly when their lower cases agree; the further
  pairs Python knows (s and U+017F, i and U+0130 or U+0131, k and U+212A) have a member
  outside this range. The same holds of a range \<^verbatim>\<open>[a-b]\<close> under the flag, which Python
  tests on the character, its lower case and its upper case.\<close>

definition chr_eq :: "bool \<Rightarrow> char \<Rightarrow> char \<Rightarrow> bool" where
  "chr_eq ci p c = (c = p \<or> (ci \<and> lower_char c = lower_char p))"

fun cset_mem :: "bool \<Rightarrow> cset \<Rightarrow> char \<Rightarrow> bool" where
  "cset_mem ci Space c = is_space c"
| "cset_mem ci Digit c = is_digit c"
| "cset_mem ci Dot c = (c \<noteq> CHR 0x0A)"
| "cset_mem ci (One p) c = chr_eq ci p c"
| "cset_mem ci (Range a b) c =
     ((cp a \<le> cp c \<and> cp c \<le> cp b)
      \<or> (ci \<and> ((cp a \<le> cp (lower_char c) \<and> cp (lower_char c) \<le> cp b)
              \<or> (cp a \<le> cp (upper_char c) \<and> cp (upper_char c) \<le> cp b))))"
| "cset_mem ci (Union x y) c = (cset_mem ci x c \<or> cset_mem ci y c)"

text \<open>The ways a repetition of a class splits the input, in the matcher's order:
  longest first when greedy, shortest first when lazy.\<close>

fun star_splits :: "(char \<Rightarrow> bool) \<Rightarrow> string \<Rightarrow> (string \<times> string) list" where
  "star_splits p [] = [([], [])]"
| "star_splits p (x # xs) =
     (if p x then map (\<lambda>(m, r). (x # m, r)) (star_splits p xs) else []) @ [([], x # xs)]"

fun lazy_splits :: "(char \<Rightarrow> bool) \<Rightarrow> string \<Rightarrow> (string \<times> string) list" where
  "lazy_splits p [] = [([], [])]"
| "lazy_splits p (x # xs) =
     ([], x # xs) # (if p x then map (\<lambda>(m, r). (x # m, r)) (lazy_splits p xs) else [])"

fun rep_splits :: "(char \<Rightarrow> bool) \<Rightarrow> nat \<Rightarrow> nat \<Rightarrow> string \<Rightarrow> (string \<times> string) list" where
  "rep_splits p lo hi [] = (if lo = 0 then [([], [])] else [])"
| "rep_splits p lo hi (x # xs) =
     (if 0 < hi \<and> p x then map (\<lambda>(m, r). (x # m, r)) (rep_splits p (lo - 1) (hi - 1) xs) else [])
     @ (if lo = 0 then [([], x # xs)] else [])"

definition one_then :: "(char \<Rightarrow> bool) \<Rightarrow> (string \<Rightarrow> (string \<times> string) list) \<Rightarrow> string
    \<Rightarrow> (string \<times> string) list" where
  "one_then p f s = (case s of [] \<Rightarrow> []
     | x # xs \<Rightarrow> if p x then map (\<lambda>(m, r). (x # m, r)) (f xs) else [])"

text \<open>The character before the position after a match \<open>m\<close>.\<close>

definition prev_after :: "char option \<Rightarrow> string \<Rightarrow> char option" where
  "prev_after prev m = (if m = [] then prev else Some (last m))"

definition at_boundary :: "char option \<Rightarrow> string \<Rightarrow> bool" where
  "at_boundary prev rest =
     ((case prev of None \<Rightarrow> False | Some c \<Rightarrow> is_word c)
      \<noteq> (case rest of [] \<Rightarrow> False | c # _ \<Rightarrow> is_word c))"

text \<open>A match is the text matched, the input left, and the groups captured so far.\<close>

type_synonym rmatch = "string \<times> string \<times> caps"

text \<open>Sequencing: each match of the first part, in order, is continued by the matches
  \<open>f\<close> of the second part.\<close>

primrec seq_results :: "(char option \<Rightarrow> string \<Rightarrow> caps \<Rightarrow> rmatch list) \<Rightarrow> char option
    \<Rightarrow> rmatch list \<Rightarrow> rmatch list" where
  "seq_results f prev [] = []"
| "seq_results f prev (r # rs) =
     (case r of (m1, s1, g1) \<Rightarrow>
        map (\<lambda>(m2, s2, g2). (m1 @ m2, s2, g2)) (f (prev_after prev m1) s1 g1))
     @ seq_results f prev rs"

primrec rxm :: "rx \<Rightarrow> bool \<Rightarrow> char option \<Rightarrow> string \<Rightarrow> caps \<Rightarrow> rmatch list" where
  "rxm (Lit p) ci prev s g =
     (case s of [] \<Rightarrow> [] | x # xs \<Rightarrow> if chr_eq ci p x then [([x], xs, g)] else [])"
| "rxm (Cls k) ci prev s g =
     (case s of [] \<Rightarrow> [] | x # xs \<Rightarrow> if cset_mem ci k x then [([x], xs, g)] else [])"
| "rxm (Seq a b) ci prev s g = seq_results (rxm b ci) prev (rxm a ci prev s g)"
| "rxm (Alt a b) ci prev s g = rxm a ci prev s g @ rxm b ci prev s g"
| "rxm (Opt a) ci prev s g = rxm a ci prev s g @ [([], s, g)]"
| "rxm (Star k) ci prev s g = map (\<lambda>(m, r). (m, r, g)) (star_splits (cset_mem ci k) s)"
| "rxm (Plus k) ci prev s g =
     map (\<lambda>(m, r). (m, r, g)) (one_then (cset_mem ci k) (star_splits (cset_mem ci k)) s)"
| "rxm (LazyPlus k) ci prev s g =
     map (\<lambda>(m, r). (m, r, g)) (one_then (cset_mem ci k) (lazy_splits (cset_mem ci k)) s)"
| "rxm (Rep lo hi k) ci prev s g = map (\<lambda>(m, r). (m, r, g)) (rep_splits (cset_mem ci k) lo hi s)"
| "rxm (Grp n a) ci prev s g = map (\<lambda>(m, r, g'). (m, r, g'(n \<mapsto> m))) (rxm a ci prev s g)"
| "rxm Bol ci prev s g = (if prev = None then [([], s, g)] else [])"
| "rxm Eol ci prev s g = (if s = [] \<or> s = [CHR 0x0A] then [([], s, g)] else [])"
| "rxm WordB ci prev s g = (if at_boundary prev s then [([], s, g)] else [])"
| "rxm (Ahead a) ci prev s g =
     (case rxm a ci prev s g of [] \<Rightarrow> [] | (m, r, g') # _ \<Rightarrow> [([], s, g')])"

text \<open>\<^verbatim>\<open>pattern.match(s)\<close>: the first match at the start of the string.\<close>

definition re_match :: "bool \<Rightarrow> rx \<Rightarrow> string \<Rightarrow> (string \<times> caps) option" where
  "re_match ci r s = (case rxm r ci None s (\<lambda>_. None) of [] \<Rightarrow> None
     | (m, _, g) # _ \<Rightarrow> Some (m, g))"

text \<open>\<^verbatim>\<open>pattern.search(s)\<close>: the first match at the leftmost position that has one.\<close>

fun search_from :: "bool \<Rightarrow> rx \<Rightarrow> char option \<Rightarrow> string \<Rightarrow> (string \<times> caps) option" where
  "search_from ci r prev [] =
     (case rxm r ci prev [] (\<lambda>_. None) of [] \<Rightarrow> None | (m, _, g) # _ \<Rightarrow> Some (m, g))"
| "search_from ci r prev (x # xs) =
     (case rxm r ci prev (x # xs) (\<lambda>_. None) of
        [] \<Rightarrow> search_from ci r (Some x) xs
      | (m, _, g) # _ \<Rightarrow> Some (m, g))"

definition re_search :: "bool \<Rightarrow> rx \<Rightarrow> string \<Rightarrow> (string \<times> caps) option" where
  "re_search ci r s = search_from ci r None s"

text \<open>\<^verbatim>\<open>m.group(n)\<close> for a group that stands outside every optional part of its
  pattern, so that it is set in every match; \<^verbatim>\<open>m.group(0)\<close> is the text matched.\<close>

definition group :: "(string \<times> caps) \<Rightarrow> nat \<Rightarrow> string" where
  "group m n = (if n = 0 then fst m else case snd m n of None \<Rightarrow> [] | Some t \<Rightarrow> t)"

text \<open>Pattern text to pattern value: sequences and literal words.\<close>

fun seqs :: "rx list \<Rightarrow> rx" where
  "seqs [] = Rep 0 0 Dot"
| "seqs [r] = r"
| "seqs (r # rs) = Seq r (seqs rs)"

definition word :: "string \<Rightarrow> rx" where
  "word w = seqs (map Lit w)"

section \<open>The patterns of the source\<close>

text \<open>\<^verbatim>\<open>^\s*Code\s+Name\s+Type\s+Internal\s+External\s+Back\s+Paper\s+Grade\s*$\<close>\<close>

definition header_regex :: rx where
  "header_regex = seqs [Bol, Star Space, word ''Code'', Plus Space, word ''Name'', Plus Space,
     word ''Type'', Plus Space, word ''Internal'', Plus Space, word ''External'', Plus Space,
     word ''Back'', Plus Space, word ''Paper'', Plus Space, word ''Grade'', Star Space, Eol]"

text \<open>\<^verbatim>\<open>^(?:Minor|Major)\s*Result\<close>\<close>

definition heading_result_regex :: rx where
  "heading_result_regex = seqs [Bol, Alt (word ''Minor'') (word ''Major''), Star Space, word ''Result'']"

text \<open>The row pattern of \<^verbatim>\<open>parse_row_to_columns\<close>.\<close>

definition type_words :: rx where
  "type_words = Alt (word ''Theory'') (Alt (word ''Practical'') (Alt (word ''CA'') (Alt (word ''Lab'')
     (Alt (word ''Project'') (Alt (word ''Workshop'') (word ''Training''))))))"

definition row_pattern :: rx where
  "row_pattern = seqs [Bol, Star Space,
     Grp 1 (Seq (Rep 3 3 (Range CHR ''A'' CHR ''Z'')) (Rep 3 3 Digit)),
     Plus Space,
     Grp 2 (LazyPlus Dot),
     Plus Space,
     Grp 3 type_words,
     Plus Space,
     Grp 4 (Plus Digit),
     Opt (Seq (Plus Space) (Grp 5 (Alt (Plus Digit) (word ''--'')))),
     Opt (Seq (Plus Space) (Grp 6 (Alt (word ''--'') (Plus Digit)))),
     Opt (Seq (Plus Space) (Grp 7 (Seq
        (Rep 1 2 (Union (Range CHR ''A'' CHR ''Z'') (Range CHR ''a'' CHR ''z'')))
        (Opt (Lit CHR ''+''))))),
     Star Space, Eol]"

text \<open>\<^verbatim>\<open>^[A-Z]{3}\d{3}\b\<close>\<close>

definition code_start_regex :: rx where
  "code_start_regex = seqs [Bol, Rep 3 3 (Range CHR ''A'' CHR ''Z''), Rep 3 3 Digit, WordB]"

text \<open>The summary patterns: \<^verbatim>\<open>^\s*Semester\s*:\s*(\d+)\<close>, \<^verbatim>\<open>Even\s*/\s*Odd\s*:\s*(Even|Odd)\<close>,
  \<^verbatim>\<open>Total\s*Marks\s*Obt\.?\s*:\s*([0-9]+)\<close>, \<^verbatim>\<open>Result\s*Status\s*:\s*(.+)\<close>,
  \<^verbatim>\<open>SGPA\s*:\s*([0-9]+(?:\.[0-9]+)?)\<close>. The source also compiles patterns for
  "Total Subjects", "Theory", "Practical" and "Date of Declaration" and never uses them.\<close>

definition re_semester :: rx where
  "re_semester = seqs [Bol, Star Space, word ''Semester'', Star Space, Lit CHR '':'', Star Space,
     Grp 1 (Plus Digit)]"

definition re_even_odd :: rx where
  "re_even_odd = seqs [word ''Even'', Star Space, Lit CHR ''/'', Star Space, word ''Odd'', Star Space,
     Lit CHR '':'', Star Space, Grp 1 (Alt (word ''Even'') (word ''Odd''))]"

definition re_total_marks :: rx where
  "re_total_marks = seqs [word ''Total'', Star Space, word ''Marks'', Star Space, word ''Obt'',
     Opt (Lit CHR ''.''), Star Space, Lit CHR '':'', Star Space,
     Grp 1 (Plus (Range CHR ''0'' CHR ''9''))]"

definition re_result_status :: rx where
  "re_result_status = seqs [word ''Result'', Star Space, word ''Status'', Star Space, Lit CHR '':'',
     Star Space, Grp 1 (Plus Dot)]"

definition re_sgpa :: rx where
  "re_sgpa = seqs [word ''SGPA'', Star Space, Lit CHR '':'', Star Space,
     Grp 1 (Seq (Plus (Range CHR ''0'' CHR ''9''))
                (Opt (Seq (Lit CHR ''.'') (Plus (Range CHR ''0'' CHR ''9'')))))]"

text \<open>The fallback patterns of the field extractor that are not among the summary
  patterns.\<close>

definition pat_institute :: rx where
  "pat_institute = seqs [word ''Institute'', Star Space, word ''Code'', Star Space, Lit CHR ''&'',
     Star Space, word ''Name'', Star Space, Lit CHR '':'', Star Space, Grp 1 (Plus Dot)]"

definition pat_course :: rx where
  "pat_course = seqs [word ''Course'', Star Space, word ''Code'', Star Space, Lit CHR ''&'',
     Star Space, word ''Name'', Star Space, Lit CHR '':'', Star Space, Grp 1 (Plus Dot)]"

definition pat_branch :: rx where
  "pat_branch = seqs [word ''Branch'', Star Space, word ''Code'', Star Space, Lit CHR ''&'',
     Star Space, word ''Name'', Star Space, Lit CHR '':'', Star Space, Grp 1 (Plus Dot)]"

definition pat_rollno :: rx where
  "pat_rollno = seqs [word ''Roll'', Star Space, word ''No'', Star Space, Lit CHR '':'', Star Space,
     Grp 1 (Plus Digit)]"

definition pat_enrollment :: rx where
  "pat_enrollment = seqs [word ''Enrollment'', Star Space, word ''No'', Star Space, Lit CHR '':'',
     Star Space, Grp 1 (Plus Dot)]"

text \<open>\<^verbatim>\<open>Name\s*:\s*(.+?)(?=\s*Hindi\s*Name\s*:|$)\<close>\<close>

definition pat_name :: rx where
  "pat_name = seqs [word ''Name'', Star Space, Lit CHR '':'', Star Space, Grp 1 (LazyPlus Dot),
     Ahead (Alt (seqs [Star Space, word ''Hindi'', Star Space, word ''Name'', Star Space,
                       Lit CHR '':'']) Eol)]"

definition pat_hindi_name :: rx where
  "pat_hindi_name = seqs [word ''Hindi'', Star Space, word ''Name'', Star Space, Lit CHR '':'',
     Star Space, Grp 1 (Plus Dot)]"

definition pat_gender :: rx where
  "pat_gender = seqs [word ''Gender'', Star Space, Lit CHR '':'', Star Space,
     Grp 1 (Plus (Union (Range CHR ''A'' CHR ''Z'') (Range CHR ''a'' CHR ''z'')))]"

definition pat_session :: rx where
  "pat_session = seqs [word ''Session'', Star Space, Lit CHR '':'', Star Space, Grp 1 (Plus Dot)]"

text \<open>\<^verbatim>\<open>Semester\s*:\s*(\d+)\<close>, not anchored.\<close>

definition pat_semester :: rx where
  "pat_semester = seqs [word ''Semester'', Star Space, Lit CHR '':'', Star Space, Grp 1 (Plus Digit)]"

section \<open>The text source\<close>

text \<open>
  The PDF reader is outside the core: the input is the text of each page, in page
  order, \<open>None\<close> when the reader returns no text (\<^verbatim>\<open>page.extract_text() or ""\<close>). The
  source opens the document twice and reads the same pages both times.
\<close>

type_synonym page = "string option"

definition text_of :: "page \<Rightarrow> string" where
  "text_of p = (case p of None \<Rightarrow> [] | Some t \<Rightarrow> t)"

text \<open>\<^verbatim>\<open>str.splitlines()\<close>: a line ends at LF, VT, FF, CR, CR LF, FS, GS, RS or NEL; the
  line ends are dropped and a final line end opens no further line.\<close>

definition is_linebreak :: "char \<Rightarrow> bool" where
  "is_linebreak c = (let n = cp c in (10 \<le> n \<and> n \<le> 13) \<or> (28 \<le> n \<and> n \<le> 30) \<or> n = 133)"

fun splitlines_from :: "string \<Rightarrow> string \<Rightarrow> string list" where
  "splitlines_from cur [] = (if cur = [] then [] else [cur])"
| "splitlines_from cur [c] = (if is_linebreak c then [cur] else [cur @ [c]])"
| "splitlines_from cur (c # d # cs) =
     (if c = CHR 0x0D \<and> d = CHR 0x0A then cur # splitlines_from [] cs
      else if is_linebreak c then cur # splitlines_from [] (d # cs)
      else splitlines_from (cur @ [c]) (d # cs))"

definition splitlines :: "string \<Rightarrow> string list" where
  "splitlines t = splitlines_from [] t"

definition page_lines :: "page \<Rightarrow> string list" where
  "page_lines p = splitlines (text_of p)"

text \<open>\<^verbatim>\<open>"\n".join(all_lines)\<close>\<close>

fun join_lines :: "string list \<Rightarrow> string" where
  "join_lines [] = []"
| "join_lines [l] = l"
| "join_lines (l # ls) = l @ CHR 0x0A # join_lines ls"

section \<open>The field extractor\<close>

definition target_fields_order :: "string list" where
  "target_fields_order =
     [''Institute Code & Name'', ''Course Code & Name'', ''Branch Code & Name'', ''RollNo'',
      ''EnrollmentNo'', ''Name'', ''Hindi Name'', ''Father'' @ [CHR 0x27] @ ''s Name'', ''Gender'',
      ''Session'', ''Semester'', ''Even/Odd'', ''SGPA'', ''Total Marks Obt.'', ''Result Status'']"

definition normalized_targets :: "(string \<times> string) list" where
  "normalized_targets = map (\<lambda>key. (key, lower key)) target_fields_order"

definition startswith :: "string \<Rightarrow> string \<Rightarrow> bool" where
  "startswith s p = (take (length p) s = p)"

text \<open>\<^verbatim>\<open>line.split(":", 1)\<close> on a line that has a colon.\<close>

definition split_colon :: "string \<Rightarrow> string \<times> string" where
  "split_colon line =
     (takeWhile (\<lambda>c. c \<noteq> CHR '':'') line, drop 1 (dropWhile (\<lambda>c. c \<noteq> CHR '':'') line))"

text \<open>The inner loop of the first pass: the first target whose lower-case name starts
  the key and that has no value yet takes the value.\<close>

fun record_first :: "(string \<times> string) list \<Rightarrow> string \<Rightarrow> string \<Rightarrow> (string \<rightharpoonup> string)
    \<Rightarrow> (string \<rightharpoonup> string)" where
  "record_first [] lkey v found_map = found_map"
| "record_first ((original, norm) # ts) lkey v found_map =
     (if startswith lkey norm \<and> found_map original = None then found_map(original \<mapsto> v)
      else record_first ts lkey v found_map)"

definition scan_label_line :: "(string \<rightharpoonup> string) \<Rightarrow> string \<Rightarrow> (string \<rightharpoonup> string)" where
  "scan_label_line found_map raw =
     (let line = strip raw in
      if line = [] \<or> CHR '':'' \<notin> set line then found_map
      else (case split_colon line of (left, right) \<Rightarrow>
              record_first normalized_targets (lower (strip left)) (strip right) found_map))"

text \<open>The second pass, in the order of the dictionary \<^verbatim>\<open>patterns\<close>.\<close>

definition patterns :: "(string \<times> rx) list" where
  "patterns =
     [(''Institute Code & Name'', pat_institute), (''Course Code & Name'', pat_course),
      (''Branch Code & Name'', pat_branch), (''RollNo'', pat_rollno),
      (''EnrollmentNo'', pat_enrollment), (''Name'', pat_name), (''Hindi Name'', pat_hindi_name),
      (''Gender'', pat_gender), (''Session'', pat_session), (''Semester'', pat_semester),
      (''Even/Odd'', re_even_odd), (''SGPA'', re_sgpa), (''Total Marks Obt.'', re_total_marks),
      (''Result Status'', re_result_status)]"

definition fallback :: "string \<Rightarrow> (string \<rightharpoonup> string) \<Rightarrow> string \<times> rx \<Rightarrow> (string \<rightharpoonup> string)" where
  "fallback full_text found_map p =
     (case p of (label, regex) \<Rightarrow>
        (case found_map label of
           Some (c # cs) \<Rightarrow> found_map
         | _ \<Rightarrow> (case re_search True regex full_text of
                   None \<Rightarrow> found_map
                 | Some m \<Rightarrow> found_map(label \<mapsto> strip (group m 1)))))"

definition scan_fields :: "string list \<Rightarrow> (string \<rightharpoonup> string)" where
  "scan_fields all_lines =
     foldl (fallback (join_lines all_lines)) (foldl scan_label_line Map.empty all_lines) patterns"

text \<open>\<^verbatim>\<open>found_map.get(key, "")\<close>\<close>

definition get_or_empty :: "(string \<rightharpoonup> string) \<Rightarrow> string \<Rightarrow> string" where
  "get_or_empty found_map key = (case found_map key of None \<Rightarrow> [] | Some v \<Rightarrow> v)"

text \<open>The roll number is cut to its leading digits (\<^verbatim>\<open>re.match(r"\d+", roll_val)\<close>).\<close>

definition roll_of :: "string \<Rightarrow> string" where
  "roll_of roll_val = (case re_match False (Plus Digit) roll_val of None \<Rightarrow> roll_val
     | Some m_roll \<Rightarrow> group m_roll 0)"

text \<open>\<^verbatim>\<open>s.split(sub, 1)[0]\<close> when \<^verbatim>\<open>sub in s\<close>: the text before the first occurrence.\<close>

fun before_first :: "string \<Rightarrow> string \<Rightarrow> string option" where
  "before_first sub [] = (if sub = [] then Some [] else None)"
| "before_first sub (c # cs) =
     (if startswith (c # cs) sub then Some []
      else map_option (\<lambda>t. c # t) (before_first sub cs))"

definition name_of :: "string \<Rightarrow> string" where
  "name_of name_val = (case before_first ''Hindi'' name_val of None \<Rightarrow> name_val
     | Some t \<Rightarrow> rstrip_colon (strip t))"

text \<open>The inner function \<^verbatim>\<open>add\<close>, with the list it appends to as an argument.\<close>

definition add :: "string \<Rightarrow> string \<Rightarrow> bool \<Rightarrow> (string \<times> string) list \<Rightarrow> (string \<times> string) list" where
  "add label v always general_info =
     (if always \<or> v \<noteq> [] then general_info @ [(label, v)] else general_info)"

definition build_general_info :: "(string \<rightharpoonup> string) \<Rightarrow> (string \<times> string) list" where
  "build_general_info found_map =
     (let roll_val = roll_of (get_or_empty found_map ''RollNo'');
          enroll_val = get_or_empty found_map ''EnrollmentNo'';
          name_val = name_of (get_or_empty found_map ''Name'');
          marks_val = get_or_empty found_map ''Total Marks Obt.'';
          sgpa_val = get_or_empty found_map ''SGPA''
      in add ''SGPA :'' sgpa_val True
        (add ''Total Marks Obt. :'' marks_val True
        (add ''Even/Odd'' (get_or_empty found_map ''Even/Odd'') False
        (add ''Semester'' (get_or_empty found_map ''Semester'') False
        (add ''Gender'' (get_or_empty found_map ''Gender'') False
        (add ''Hindi Name'' (get_or_empty found_map ''Hindi Name'') False
        (add ''Name'' name_val False
        (add ''EnrollmentNo'' enroll_val False
        (add ''RollNo'' roll_val False
        (add ''Branch Code & Name'' (get_or_empty found_map ''Branch Code & Name'') False
        (add ''Course Code & Name'' (get_or_empty found_map ''Course Code & Name'') False
        (add ''Institute Code & Name'' (get_or_empty found_map ''Institute Code & Name'') False
           []))))))))))))"

definition general_info_of :: "string list \<Rightarrow> (string \<times> string) list" where
  "general_info_of all_lines = build_general_info (scan_fields all_lines)"

section \<open>Rows\<close>

text \<open>\<^verbatim>\<open>re.sub(r"\s+", " ", s)\<close>: every maximal run of whitespace becomes one space.\<close>

fun sub_ws :: "string \<Rightarrow> string" where
  "sub_ws [] = []"
| "sub_ws [c] = (if is_space c then '' '' else [c])"
| "sub_ws (c # d # cs) =
     (if is_space c then (if is_space d then sub_ws (d # cs) else CHR '' '' # sub_ws (d # cs))
      else c # sub_ws (d # cs))"

text \<open>\<^verbatim>\<open>x or "--"\<close> for an optional group.\<close>

definition or_dashes :: "string option \<Rightarrow> string" where
  "or_dashes x = (case x of None \<Rightarrow> ''--'' | Some t \<Rightarrow> if t = [] then ''--'' else t)"

definition parse_row_to_columns :: "string \<Rightarrow> string list option" where
  "parse_row_to_columns raw =
     (let txt = sub_ws (strip raw) in
      case re_match True row_pattern txt of
        None \<Rightarrow> None
      | Some m \<Rightarrow> Some [group m 1, strip (group m 2), capitalize (group m 3), group m 4,
                        or_dashes (snd m 5), or_dashes (snd m 6), or_dashes (snd m 7)])"

section \<open>Blocks\<close>

text \<open>A summary is a Python dictionary with string keys, here the list of its items in
  insertion order; a block is the dictionary the source appends to
  \<^verbatim>\<open>marksheet_blocks\<close>.\<close>

type_synonym summary = "(string \<times> string) list"

record block =
  summary :: summary
  header :: "string list"
  rows :: "string list list"

definition dict_get :: "summary \<Rightarrow> string \<Rightarrow> string option" where
  "dict_get d k = map_of d k"

fun dict_set :: "summary \<Rightarrow> string \<Rightarrow> string \<Rightarrow> summary" where
  "dict_set [] k v = [(k, v)]"
| "dict_set ((k', v') # d) k v = (if k' = k then (k, v) # d else (k', v') # dict_set d k v)"

definition header_cols :: "string list" where
  "header_cols = [''Code'', ''Name'', ''Type'', ''Internal'', ''External'', ''Back Paper'', ''Grade'']"

datatype error = ValueError

text \<open>\<^verbatim>\<open>str.isdigit\<close> holds of the superscripts 0xB2, 0xB3 and 0xB9 too, which
  \<^verbatim>\<open>int()\<close> rejects with ValueError.\<close>

definition isdigit :: "string \<Rightarrow> bool" where
  "isdigit s = (s \<noteq> [] \<and> list_all (\<lambda>c. is_digit c \<or> cp c = 178 \<or> cp c = 179 \<or> cp c = 185) s)"

text \<open>\<^verbatim>\<open>int(s)\<close>: CPython (3.11 and later) also raises ValueError for more than 4300
  digits, its default limit for the conversion.\<close>

definition py_int :: "string \<Rightarrow> error + nat" where
  "py_int s = (if s \<noteq> [] \<and> list_all is_digit s \<and> length s \<le> 4300
     then Inr (foldl (\<lambda>n c. 10 * n + (cp c - 48)) 0 s) else Inl ValueError)"

text \<open>The soft check of \<^verbatim>\<open>finalize_block\<close>: the declared number of subjects is read,
  and nothing is done with it.\<close>

definition soft_check :: "summary \<Rightarrow> error + unit" where
  "soft_check s = (case dict_get s ''Total Subjects'' of
       None \<Rightarrow> Inr ()
     | Some expected \<Rightarrow>
         if expected \<noteq> [] \<and> isdigit expected
         then (case py_int expected of Inl e \<Rightarrow> Inl e | Inr _ \<Rightarrow> Inr ())
         else Inr ())"

definition finalize_block :: "summary \<Rightarrow> string list list \<Rightarrow> block list \<Rightarrow> error + block list" where
  "finalize_block s table_rows marksheet_blocks =
     (if table_rows = [] then Inr marksheet_blocks
      else (case soft_check s of
              Inl e \<Rightarrow> Inl e
            | Inr _ \<Rightarrow> Inr (marksheet_blocks @
                 [\<lparr>summary = s, header = header_cols, rows = table_rows\<rparr>])))"

text \<open>The summary a "Semester :" line opens.\<close>

definition new_summary :: "string \<Rightarrow> summary" where
  "new_summary sem = [(''Semester'', sem), (''Even/Odd'', []), (''Total Marks Obt.'', []),
     (''Result Status'', []), (''SGPA'', [])]"

text \<open>The four assignments made for a line of the summary part.\<close>

definition set_if :: "(string \<times> caps) option \<Rightarrow> string \<Rightarrow> (string \<Rightarrow> string) \<Rightarrow> summary \<Rightarrow> summary" where
  "set_if m key f s = (case m of None \<Rightarrow> s | Some g \<Rightarrow> dict_set s key (f (group g 1)))"

definition capture_summary :: "summary \<Rightarrow> string \<Rightarrow> summary" where
  "capture_summary s l2 =
     set_if (re_search True re_sgpa l2) ''SGPA'' (\<lambda>v. v)
       (set_if (re_search True re_result_status l2) ''Result Status'' strip
         (set_if (re_search True re_total_marks l2) ''Total Marks Obt.'' (\<lambda>v. v)
           (set_if (re_search True re_even_odd l2) ''Even/Odd'' (\<lambda>v. v) s)))"

text \<open>The stop condition of the row loop, on a stripped line.\<close>

definition is_stop :: "string \<Rightarrow> bool" where
  "is_stop l3 = (re_search True re_semester l3 \<noteq> None \<or> re_search True heading_result_regex l3 \<noteq> None)"

definition is_header :: "string \<Rightarrow> bool" where
  "is_header l = (re_search True header_regex l \<noteq> None)"

definition joined :: "string \<Rightarrow> string \<Rightarrow> string" where
  "joined buffer l3 = (if buffer \<noteq> [] then strip (buffer @ '' '' @ l3) else l3)"

text \<open>One pass of the row loop over a line that is not a stop line: the rows and the
  buffer after it. Every such pass ends with \<^verbatim>\<open>i += 1\<close>.\<close>

definition row_line :: "string \<Rightarrow> string list list \<Rightarrow> string \<Rightarrow> string list list \<times> string" where
  "row_line l3 table_rows buffer =
     (if is_header l3 then (table_rows, buffer)
      else if l3 = [] then (table_rows, buffer)
      else (case parse_row_to_columns (joined buffer l3) of
              Some parsed \<Rightarrow> (table_rows @ [parsed], [])
            | None \<Rightarrow>
                (case (if buffer \<noteq> [] \<and> re_search True code_start_regex l3 \<noteq> None
                       then parse_row_to_columns buffer else None) of
                   Some parsed_buf \<Rightarrow> (table_rows @ [parsed_buf], l3)
                 | None \<Rightarrow> (table_rows, joined buffer l3))))"

text \<open>The row loop: the lines left (the stop line first, if there is one), the rows and
  the buffer.\<close>

fun row_loop :: "string list \<Rightarrow> string list list \<Rightarrow> string
    \<Rightarrow> string list \<times> string list list \<times> string" where
  "row_loop [] table_rows buffer = ([], table_rows, buffer)"
| "row_loop (x # xs) table_rows buffer =
     (if is_stop (strip x) then (x # xs, table_rows, buffer)
      else (case row_line (strip x) table_rows buffer of
              (table_rows', buffer') \<Rightarrow> row_loop xs table_rows' buffer'))"

text \<open>The trailing buffer is tried once more.\<close>

definition flush_buffer :: "string list list \<Rightarrow> string \<Rightarrow> string list list" where
  "flush_buffer table_rows buffer =
     (if buffer \<noteq> [] then (case parse_row_to_columns buffer of
                               Some parsed_buf \<Rightarrow> table_rows @ [parsed_buf]
                             | None \<Rightarrow> table_rows)
      else table_rows)"

definition finalize_opt :: "summary option \<Rightarrow> string list list \<Rightarrow> block list \<Rightarrow> error + block list" where
  "finalize_opt current_summary table_rows marksheet_blocks =
     (case current_summary of None \<Rightarrow> Inr marksheet_blocks
      | Some s \<Rightarrow> finalize_block s table_rows marksheet_blocks)"

lemma row_loop_length: "row_loop ls t b = (rest, t', b') \<Longrightarrow> length rest \<le> length ls"
  by (induction ls arbitrary: t b) (auto split: if_splits prod.splits, fastforce)

text \<open>The loop that collects the summary lines: the lines left when it ends (a
  "Semester :" line first, if it ended by \<^verbatim>\<open>break\<close>) and the blocks so far. After the
  rows of a block the loop goes on, with no summary, at the line that stopped the rows.\<close>

function summary_loop :: "summary option \<Rightarrow> string list \<Rightarrow> block list
    \<Rightarrow> error + (string list \<times> block list)" where
  "summary_loop current_summary [] marksheet_blocks = Inr ([], marksheet_blocks)"
| "summary_loop current_summary (x # xs) marksheet_blocks =
     (if is_header (strip x) then
        (case row_loop xs [] [] of (rest, table_rows, buffer) \<Rightarrow>
           (case finalize_opt current_summary (flush_buffer table_rows buffer) marksheet_blocks of
              Inl e \<Rightarrow> Inl e
            | Inr blocks' \<Rightarrow> summary_loop None rest blocks'))
      else (let captured = map_option (\<lambda>s. capture_summary s (strip x)) current_summary in
            if re_search True re_semester (strip x) \<noteq> None then Inr (x # xs, marksheet_blocks)
            else summary_loop captured xs marksheet_blocks))"
  by pat_completeness auto
termination
proof (relation "measure (\<lambda>(c, ls, b). length ls)", goal_cases)
  case 1
  show ?case by simp
next
  case 2
  then show ?case
    by (auto dest!: row_loop_length [OF sym] simp: less_Suc_eq_le)
next
  case 3
  show ?case by simp
qed

lemma summary_loop_length:
  "summary_loop c ls b = Inr (rest, b') \<Longrightarrow> length rest \<le> length ls"
proof (induction c ls b rule: summary_loop.induct)
  case (1 c b)
  then show ?case by simp
next
  case (2 c x xs b)
  show ?case
  proof (cases "is_header (strip x)")
    case True
    obtain r t u where rl: "row_loop xs [] [] = (r, t, u)"
      by (cases "row_loop xs [] []") auto
    from "2.prems" True rl obtain b1 where
      f: "finalize_opt c (flush_buffer t u) b = Inr b1" and
      s: "summary_loop None r b1 = Inr (rest, b')"
      by (auto split: sum.splits)
    from "2.IH"(1) [OF True rl [symmetric] refl f s] have "length rest \<le> length r" .
    moreover from rl have "length r \<le> length xs" by (rule row_loop_length)
    ultimately show ?thesis by simp
  next
    case False
    show ?thesis
    proof (cases "re_search True re_semester (strip x) \<noteq> None")
      case True
      with "2.prems" False show ?thesis by (simp add: Let_def)
    next
      case stay: False
      with "2.prems" False
      have "summary_loop (map_option (\<lambda>s. capture_summary s (strip x)) c) xs b = Inr (rest, b')"
        by (simp add: Let_def)
      from "2.IH"(2) [OF False refl stay this] show ?thesis by simp
    qed
  qed
qed

text \<open>The outer loop over the lines of one page.\<close>

function page_loop :: "string list \<Rightarrow> block list \<Rightarrow> error + block list" where
  "page_loop [] marksheet_blocks = Inr marksheet_blocks"
| "page_loop (x # xs) marksheet_blocks =
     (case re_search True re_semester (strip x) of
        Some m_sem \<Rightarrow>
          (case summary_loop (Some (new_summary (group m_sem 1))) xs marksheet_blocks of
             Inl e \<Rightarrow> Inl e
           | Inr (rest, blocks') \<Rightarrow> page_loop rest blocks')
      | None \<Rightarrow> page_loop xs marksheet_blocks)"
  by pat_completeness auto
termination
proof (relation "measure (\<lambda>(ls, b). length ls)", goal_cases)
  case 1
  show ?case by simp
next
  case 2
  then show ?case by simp
next
  case 3
  then show ?case
    by (auto dest: summary_loop_length simp: less_Suc_eq_le)
qed

text \<open>The loop over the pages; \<^verbatim>\<open>marksheet_blocks\<close> is shared by all of them.\<close>

fun pages_loop :: "string list list \<Rightarrow> block list \<Rightarrow> error + block list" where
  "pages_loop [] marksheet_blocks = Inr marksheet_blocks"
| "pages_loop (lines # ps) marksheet_blocks =
     (case page_loop lines marksheet_blocks of
        Inl e \<Rightarrow> Inl e
      | Inr blocks' \<Rightarrow> pages_loop ps blocks')"

definition extract_marksheet_blocks :: "page list \<Rightarrow> error + ((string \<times> string) list \<times> block list)" where
  "extract_marksheet_blocks pdf =
     (let all_lines = concat (map page_lines pdf) in
      case pages_loop (map page_lines pdf) [] of
        Inl e \<Rightarrow> Inl e
      | Inr marksheet_blocks \<Rightarrow> Inr (general_info_of all_lines, marksheet_blocks))"

section \<open>Invariants of the emitted blocks\<close>

text \<open>What holds of every row the row parser returns (\<open>P\<close>) and of every summary that
  is opened by a "Semester :" line and kept by the captures (\<open>Q\<close>) holds of the rows and
  the summary of every block in the result.\<close>

lemma row_line_rows:
  assumes "\<And>raw r. parse_row_to_columns raw = Some r \<Longrightarrow> P r"
    and "row_line l t b = (t', b')" and "list_all P t"
  shows "list_all P t'"
  using assms(2,3) assms(1)
  by (auto simp: row_line_def split: if_splits option.splits)

lemma row_loop_rows:
  assumes "\<And>raw r. parse_row_to_columns raw = Some r \<Longrightarrow> P r"
  shows "row_loop ls t b = (rest, t', b') \<Longrightarrow> list_all P t \<Longrightarrow> list_all P t'"
proof (induction ls arbitrary: t b)
  case Nil
  then show ?case by simp
next
  case (Cons x xs)
  show ?case
  proof (cases "is_stop (strip x)")
    case True
    with Cons.prems show ?thesis by simp
  next
    case False
    obtain t1 b1 where rl: "row_line (strip x) t b = (t1, b1)"
      by (cases "row_line (strip x) t b") auto
    from assms rl Cons.prems(2) have "list_all P t1" by (rule row_line_rows)
    moreover from Cons.prems(1) False rl have "row_loop xs t1 b1 = (rest, t', b')" by simp
    ultimately show ?thesis by (rule Cons.IH [rotated])
  qed
qed

lemma flush_buffer_rows:
  assumes "\<And>raw r. parse_row_to_columns raw = Some r \<Longrightarrow> P r" and "list_all P t"
  shows "list_all P (flush_buffer t b)"
  using assms(2) assms(1) by (auto simp: flush_buffer_def split: option.splits)

definition block_inv :: "(string list \<Rightarrow> bool) \<Rightarrow> (summary \<Rightarrow> bool) \<Rightarrow> block \<Rightarrow> bool" where
  "block_inv P Q b = (rows b \<noteq> [] \<and> list_all P (rows b) \<and> Q (summary b) \<and> header b = header_cols)"

lemma finalize_block_inv:
  assumes "finalize_block s t bl = Inr bl'" and "list_all (block_inv P Q) bl"
    and "list_all P t" and "Q s"
  shows "list_all (block_inv P Q) bl'"
  using assms by (auto simp: finalize_block_def block_inv_def split: if_splits sum.splits)

lemma finalize_opt_inv:
  assumes "finalize_opt c t bl = Inr bl'" and "list_all (block_inv P Q) bl"
    and "list_all P t" and "\<And>s. c = Some s \<Longrightarrow> Q s"
  shows "list_all (block_inv P Q) bl'"
  using assms by (cases c) (auto simp: finalize_opt_def intro: finalize_block_inv)

lemma summary_loop_inv:
  assumes p: "\<And>raw r. parse_row_to_columns raw = Some r \<Longrightarrow> P r"
    and q: "\<And>s l. Q s \<Longrightarrow> Q (capture_summary s l)"
  shows "summary_loop c ls bl = Inr (rest, bl') \<Longrightarrow> list_all (block_inv P Q) bl
    \<Longrightarrow> (\<And>s. c = Some s \<Longrightarrow> Q s) \<Longrightarrow> list_all (block_inv P Q) bl'"
proof (induction c ls bl rule: summary_loop.induct)
  case (1 c bl)
  then show ?case by simp
next
  case (2 c x xs bl)
  show ?case
  proof (cases "is_header (strip x)")
    case True
    obtain r t u where rl: "row_loop xs [] [] = (r, t, u)"
      by (cases "row_loop xs [] []") auto
    from "2.prems"(1) True rl obtain b1 where
      f: "finalize_opt c (flush_buffer t u) bl = Inr b1" and
      s: "summary_loop None r b1 = Inr (rest, bl')"
      by (auto split: sum.splits)
    have "list_all P []" by simp
    with p rl have "list_all P t" by (rule row_loop_rows)
    with p have "list_all P (flush_buffer t u)" by (rule flush_buffer_rows)
    with f "2.prems"(2) have "list_all (block_inv P Q) b1"
      using "2.prems"(3) by (rule finalize_opt_inv)
    with "2.IH"(1) [OF True rl [symmetric] refl f s] show ?thesis by simp
  next
    case False
    show ?thesis
    proof (cases "re_search True re_semester (strip x) \<noteq> None")
      case True
      with "2.prems" False show ?thesis by (simp add: Let_def)
    next
      case stay: False
      with "2.prems" False
      have "summary_loop (map_option (\<lambda>s. capture_summary s (strip x)) c) xs bl = Inr (rest, bl')"
        by (simp add: Let_def)
      from "2.IH"(2) [OF False refl stay this "2.prems"(2)] q "2.prems"(3)
      show ?thesis by auto
    qed
  qed
qed

lemma page_loop_inv:
  assumes p: "\<And>raw r. parse_row_to_columns raw = Some r \<Longrightarrow> P r"
    and q: "\<And>s l. Q s \<Longrightarrow> Q (capture_summary s l)"
    and n: "\<And>l m. re_search True re_semester l = Some m \<Longrightarrow> Q (new_summary (group m 1))"
  shows "page_loop ls bl = Inr bl' \<Longrightarrow> list_all (block_inv P Q) bl
    \<Longrightarrow> list_all (block_inv P Q) bl'"
proof (induction ls bl rule: page_loop.induct)
  case (1 bl)
  then show ?case by simp
next
  case (2 x xs bl)
  show ?case
  proof (cases "re_search True re_semester (strip x)")
    case None
    with "2.prems" "2.IH"(1) [OF None] show ?thesis by simp
  next
    case (Some m)
    with "2.prems"(1) obtain rest b1 where
      s: "summary_loop (Some (new_summary (group m 1))) xs bl = Inr (rest, b1)" and
      pl: "page_loop rest b1 = Inr bl'"
      by (auto split: sum.splits)
    from n [OF Some] have "Q (new_summary (group m 1))" .
    with summary_loop_inv [OF p q s "2.prems"(2)] have "list_all (block_inv P Q) b1" by simp
    with "2.IH"(2) [OF Some s refl pl] show ?thesis by simp
  qed
qed

lemma pages_loop_inv:
  assumes p: "\<And>raw r. parse_row_to_columns raw = Some r \<Longrightarrow> P r"
    and q: "\<And>s l. Q s \<Longrightarrow> Q (capture_summary s l)"
    and n: "\<And>l m. re_search True re_semester l = Some m \<Longrightarrow> Q (new_summary (group m 1))"
  shows "pages_loop ps bl = Inr bl' \<Longrightarrow> list_all (block_inv P Q) bl
    \<Longrightarrow> list_all (block_inv P Q) bl'"
proof (induction ps arbitrary: bl)
  case Nil
  then show ?case by simp
next
  case (Cons a ps)
  from Cons.prems(1) obtain b1 where a: "page_loop a bl = Inr b1" and r: "pages_loop ps b1 = Inr bl'"
    by (auto split: sum.splits)
  from page_loop_inv [OF p q n a Cons.prems(2)] have "list_all (block_inv P Q) b1" by simp
  with Cons.IH [OF r] show ?case by simp
qed

lemma extract_inv:
  assumes p: "\<And>raw r. parse_row_to_columns raw = Some r \<Longrightarrow> P r"
    and q: "\<And>s l. Q s \<Longrightarrow> Q (capture_summary s l)"
    and n: "\<And>l m. re_search True re_semester l = Some m \<Longrightarrow> Q (new_summary (group m 1))"
    and e: "extract_marksheet_blocks pdf = Inr (gi, bl)"
  shows "list_all (block_inv P Q) bl"
proof -
  from e have "pages_loop (map page_lines pdf) [] = Inr bl"
    by (auto simp: extract_marksheet_blocks_def Let_def split: sum.splits)
  from pages_loop_inv [OF p q n this] show ?thesis by simp
qed

text \<open>
  Claim C1. Every block in the returned \<^verbatim>\<open>marksheet_blocks\<close> has at least one row: a
  block whose rows are empty when it is finalized is not appended.
\<close>

theorem emitted_block_has_rows:
  assumes "extract_marksheet_blocks pdf = Inr (general_info, marksheet_blocks)"
  shows "\<forall>b \<in> set marksheet_blocks. 1 \<le> length (rows b)"
proof -
  have "list_all (block_inv (\<lambda>r. True) (\<lambda>s. True)) marksheet_blocks"
    by (rule extract_inv [OF _ _ _ assms]) simp_all
  then show ?thesis
    by (auto simp: list_all_iff block_inv_def Suc_le_eq)
qed

theorem emitted_block_has_rows_witness:
  "map_sum id snd (extract_marksheet_blocks
      [Some ''Semester : 1\<newline>Code Name Type Internal External Back Paper Grade\<newline>CSE101 Data Theory 40'',
       Some ''Semester : 2\<newline>Code Name Type Internal External Back Paper Grade'']) =
   Inr [\<lparr>summary = [(''Semester'', ''1''), (''Even/Odd'', []), (''Total Marks Obt.'', []),
                      (''Result Status'', []), (''SGPA'', [])],
         header = [''Code'', ''Name'', ''Type'', ''Internal'', ''External'', ''Back Paper'', ''Grade''],
         rows = [[''CSE101'', ''Data'', ''Theory'', ''40'', ''--'', ''--'', ''--'']]\<rparr>]
   \<and> list_all (\<lambda>b. 1 \<le> length (rows b))
        (snd (projr (extract_marksheet_blocks
      [Some ''Semester : 1\<newline>Code Name Type Internal External Back Paper Grade\<newline>CSE101 Data Theory 40'',
       Some ''Semester : 2\<newline>Code Name Type Internal External Back Paper Grade''])))"
proof -
  let ?pdf = "[Some ''Semester : 1\<newline>Code Name Type Internal External Back Paper Grade\<newline>CSE101 Data Theory 40'',
       Some ''Semester : 2\<newline>Code Name Type Internal External Back Paper Grade'']"
  let ?bl = "[\<lparr>summary = [(''Semester'', ''1''), (''Even/Odd'', []), (''Total Marks Obt.'', []),
                      (''Result Status'', []), (''SGPA'', [])],
         header = [''Code'', ''Name'', ''Type'', ''Internal'', ''External'', ''Back Paper'', ''Grade''],
         rows = [[''CSE101'', ''Data'', ''Theory'', ''40'', ''--'', ''--'', ''--'']]\<rparr>]"
  have p: "pages_loop (map page_lines ?pdf) [] = Inr ?bl"
    by code_simp
  have e: "extract_marksheet_blocks ?pdf = Inr (general_info_of (concat (map page_lines ?pdf)), ?bl)"
    unfolding extract_marksheet_blocks_def Let_def p by simp
  from emitted_block_has_rows [OF e] have "\<forall>b \<in> set ?bl. 1 \<le> length (rows b)" .
  with e show ?thesis by (simp add: list_all_iff)
qed

section \<open>The general information\<close>

definition info_ok :: "(string \<times> string) list \<Rightarrow> bool" where
  "info_ok gi = (\<forall>(l, v) \<in> set gi.
      (v = [] \<longrightarrow> l = ''Total Marks Obt. :'' \<or> l = ''SGPA :'')
      \<and> l \<noteq> ''Father'' @ [CHR 0x27] @ ''s Name'' \<and> l \<noteq> ''Session'' \<and> l \<noteq> ''Result Status'')"

lemma info_ok_Nil: "info_ok []"
  by (simp add: info_ok_def)

lemma info_ok_add:
  assumes "info_ok gi" and "always \<Longrightarrow> l = ''Total Marks Obt. :'' \<or> l = ''SGPA :''"
    and "l \<noteq> ''Father'' @ [CHR 0x27] @ ''s Name''" and "l \<noteq> ''Session''" and "l \<noteq> ''Result Status''"
  shows "info_ok (add l v always gi)"
  using assms by (auto simp: info_ok_def add_def)

lemma info_ok_build: "info_ok (build_general_info found_map)"
  unfolding build_general_info_def Let_def
  by (intro info_ok_add info_ok_Nil) simp_all

lemma label_add_always: "l \<in> fst ` set (add l v True gi)"
  by (simp add: add_def)

lemma label_add_keep: "x \<in> fst ` set gi \<Longrightarrow> x \<in> fst ` set (add l v a gi)"
  by (auto simp: add_def)

lemma labels_build:
  "''Total Marks Obt. :'' \<in> fst ` set (build_general_info found_map)"
  "''SGPA :'' \<in> fst ` set (build_general_info found_map)"
  unfolding build_general_info_def Let_def
  by (rule label_add_always | rule label_add_keep)+

text \<open>
  Claim C8. In the returned \<^verbatim>\<open>general_info\<close> an entry has an empty value only under one
  of the two labels "Total Marks Obt. :" and "SGPA :", both of these labels are always
  present, and the labels "Father's Name", "Session" and "Result Status" never occur.
\<close>

theorem general_info_entries:
  assumes "extract_marksheet_blocks pdf = Inr (general_info, marksheet_blocks)"
  shows "(\<forall>(l, v) \<in> set general_info. v = [] \<longrightarrow> l = ''Total Marks Obt. :'' \<or> l = ''SGPA :'')
    \<and> ''Total Marks Obt. :'' \<in> fst ` set general_info
    \<and> ''SGPA :'' \<in> fst ` set general_info
    \<and> (\<forall>(l, v) \<in> set general_info.
          l \<noteq> ''Father'' @ [CHR 0x27] @ ''s Name'' \<and> l \<noteq> ''Session'' \<and> l \<noteq> ''Result Status'')"
proof -
  from assms have g: "general_info = build_general_info (scan_fields (concat (map page_lines pdf)))"
    by (auto simp: extract_marksheet_blocks_def general_info_of_def Let_def split: sum.splits)
  have ok: "info_ok general_info" unfolding g by (rule info_ok_build)
  have a: "\<forall>(l, v) \<in> set general_info. v = [] \<longrightarrow> l = ''Total Marks Obt. :'' \<or> l = ''SGPA :''"
    using ok unfolding info_ok_def by blast
  have b: "\<forall>(l, v) \<in> set general_info.
          l \<noteq> ''Father'' @ [CHR 0x27] @ ''s Name'' \<and> l \<noteq> ''Session'' \<and> l \<noteq> ''Result Status''"
    using ok unfolding info_ok_def by blast
  show ?thesis
    using a b labels_build [of "scan_fields (concat (map page_lines pdf))"]
    unfolding g by (intro conjI)
qed

theorem general_info_entries_witness:
  "extract_marksheet_blocks [Some ''Session : 2020\<newline>Gender : F''] =
     Inr ([(''Gender'', ''F''), (''Total Marks Obt. :'', []), (''SGPA :'', [])], [])
   \<and> ''Total Marks Obt. :'' \<in> fst ` set [(''Gender'', ''F''), (''Total Marks Obt. :'', []), (''SGPA :'', [])]
   \<and> ''SGPA :'' \<in> fst ` set [(''Gender'', ''F''), (''Total Marks Obt. :'', []), (''SGPA :'', [])]
   \<and> ''Session'' \<notin> fst ` set [(''Gender'', ''F''), (''Total Marks Obt. :'', []), (''SGPA :'', [])]"
proof -
  have e: "extract_marksheet_blocks [Some ''Session : 2020\<newline>Gender : F''] =
     Inr ([(''Gender'', ''F''), (''Total Marks Obt. :'', []), (''SGPA :'', [])], [])"
    by code_simp
  from general_info_entries [OF e] e show ?thesis by simp
qed

section \<open>A document without text\<close>

lemma general_info_of_no_lines:
  "general_info_of [] = [(''Total Marks Obt. :'', []), (''SGPA :'', [])]"
  by code_simp

lemma pages_loop_no_lines:
  "\<forall>ls \<in> set ps. ls = [] \<Longrightarrow> pages_loop ps bl = Inr bl"
  by (induction ps) simp_all

text \<open>
  Claim C10. When every page has empty text there is no line at all; the result is
  the two always-present entries, both empty, and no block, and no exception is raised
  (the result is an \<open>Inr\<close>).
\<close>

theorem empty_text_result:
  assumes "\<forall>p \<in> set pdf. text_of p = []"
  shows "extract_marksheet_blocks pdf = Inr ([(''Total Marks Obt. :'', []), (''SGPA :'', [])], [])"
proof -
  from assms have l: "\<forall>ls \<in> set (map page_lines pdf). ls = []"
    by (simp add: page_lines_def splitlines_def)
  then have c: "concat (map page_lines pdf) = []" by simp
  from l have "pages_loop (map page_lines pdf) [] = Inr []"
    by (rule pages_loop_no_lines)
  then show ?thesis
    unfolding extract_marksheet_blocks_def Let_def c by (simp add: general_info_of_no_lines)
qed

theorem empty_text_result_witness:
  "extract_marksheet_blocks [Some [], None, Some []] = Inr ([(''Total Marks Obt. :'', []), (''SGPA :'', [])], [])"
  using empty_text_result [of "[Some [], None, Some []]"] by (simp add: text_of_def)

section \<open>What a match says about the text: languages of patterns\<close>

text \<open>The text a pattern can match (\<open>lang\<close>), the text a group of the pattern can
  capture (\<open>glang\<close>), and the groups every match of the pattern sets (\<open>sets_group\<close>).\<close>

primrec lang :: "rx \<Rightarrow> bool \<Rightarrow> string set" where
  "lang (Lit p) ci = {[c] | c. chr_eq ci p c}"
| "lang (Cls k) ci = {[c] | c. cset_mem ci k c}"
| "lang (Seq a b) ci = {x @ y | x y. x \<in> lang a ci \<and> y \<in> lang b ci}"
| "lang (Alt a b) ci = lang a ci \<union> lang b ci"
| "lang (Opt a) ci = insert [] (lang a ci)"
| "lang (Star k) ci = {m. \<forall>c \<in> set m. cset_mem ci k c}"
| "lang (Plus k) ci = {m. m \<noteq> [] \<and> (\<forall>c \<in> set m. cset_mem ci k c)}"
| "lang (LazyPlus k) ci = {m. m \<noteq> [] \<and> (\<forall>c \<in> set m. cset_mem ci k c)}"
| "lang (Rep lo hi k) ci = {m. lo \<le> length m \<and> length m \<le> hi \<and> (\<forall>c \<in> set m. cset_mem ci k c)}"
| "lang (Grp n a) ci = lang a ci"
| "lang Bol ci = {[]}"
| "lang Eol ci = {[]}"
| "lang WordB ci = {[]}"
| "lang (Ahead a) ci = {[]}"

primrec glang :: "rx \<Rightarrow> bool \<Rightarrow> nat \<Rightarrow> string set" where
  "glang (Lit p) ci n = {}"
| "glang (Cls k) ci n = {}"
| "glang (Seq a b) ci n = glang a ci n \<union> glang b ci n"
| "glang (Alt a b) ci n = glang a ci n \<union> glang b ci n"
| "glang (Opt a) ci n = glang a ci n"
| "glang (Star k) ci n = {}"
| "glang (Plus k) ci n = {}"
| "glang (LazyPlus k) ci n = {}"
| "glang (Rep lo hi k) ci n = {}"
| "glang (Grp k a) ci n = (if k = n then lang a ci else {}) \<union> glang a ci n"
| "glang Bol ci n = {}"
| "glang Eol ci n = {}"
| "glang WordB ci n = {}"
| "glang (Ahead a) ci n = glang a ci n"

primrec sets_group :: "rx \<Rightarrow> nat \<Rightarrow> bool" where
  "sets_group (Lit p) n = False"
| "sets_group (Cls k) n = False"
| "sets_group (Seq a b) n = (sets_group a n \<or> sets_group b n)"
| "sets_group (Alt a b) n = (sets_group a n \<and> sets_group b n)"
| "sets_group (Opt a) n = False"
| "sets_group (Star k) n = False"
| "sets_group (Plus k) n = False"
| "sets_group (LazyPlus k) n = False"
| "sets_group (Rep lo hi k) n = False"
| "sets_group (Grp k a) n = (k = n \<or> sets_group a n)"
| "sets_group Bol n = False"
| "sets_group Eol n = False"
| "sets_group WordB n = False"
| "sets_group (Ahead a) n = sets_group a n"

lemma set_seq_results:
  "set (seq_results f prev rs) =
     (\<Union>(m1, s1, g1) \<in> set rs.
        (\<lambda>(m2, s2, g2). (m1 @ m2, s2, g2)) ` set (f (prev_after prev m1) s1 g1))"
  by (induction rs) auto

lemma in_seq_results:
  "x \<in> set (seq_results f prev rs) \<longleftrightarrow>
     (\<exists>m1 s1 g1 m2 s2 g2. (m1, s1, g1) \<in> set rs \<and> (m2, s2, g2) \<in> set (f (prev_after prev m1) s1 g1)
        \<and> x = (m1 @ m2, s2, g2))"
  unfolding set_seq_results by force

lemma in_star_splits:
  "(m, r) \<in> set (star_splits p s) \<Longrightarrow> s = m @ r \<and> (\<forall>c \<in> set m. p c)"
  by (induction s arbitrary: m r) (auto split: if_splits)

lemma in_lazy_splits:
  "(m, r) \<in> set (lazy_splits p s) \<Longrightarrow> s = m @ r \<and> (\<forall>c \<in> set m. p c)"
  by (induction s arbitrary: m r) (auto split: if_splits)

lemma in_rep_splits:
  "(m, r) \<in> set (rep_splits p lo hi s) \<Longrightarrow>
     s = m @ r \<and> (\<forall>c \<in> set m. p c) \<and> lo \<le> length m \<and> length m \<le> hi"
proof (induction s arbitrary: m r lo hi)
  case Nil
  then show ?case by (auto split: if_splits)
next
  case (Cons x xs)
  from Cons.prems consider
    (step) m' where "0 < hi" "p x" "(m', r) \<in> set (rep_splits p (lo - 1) (hi - 1) xs)" "m = x # m'"
    | (stop) "lo = 0" "m = []" "r = x # xs"
    by (auto split: if_splits)
  then show ?case
  proof cases
    case step
    from Cons.IH [OF step(3)] step(1,2,4) show ?thesis by auto
  next
    case stop
    then show ?thesis by simp
  qed
qed

lemma in_one_then:
  assumes "(m, r) \<in> set (one_then p f s)" and "\<And>m r t. (m, r) \<in> set (f t) \<Longrightarrow> t = m @ r \<and> (\<forall>c \<in> set m. p c)"
  shows "s = m @ r \<and> (\<forall>c \<in> set m. p c) \<and> m \<noteq> []"
  using assms by (cases s) (auto simp: one_then_def split: if_splits dest!: assms(2))

lemma rxm_sound:
  "(m, r, g') \<in> set (rxm rx ci prev s g) \<Longrightarrow> s = m @ r \<and> m \<in> lang rx ci"
proof (induction rx arbitrary: m r g' prev s g)
  case (Seq a b)
  from Seq.prems obtain m1 s1 g1 m2 where
    a: "(m1, s1, g1) \<in> set (rxm a ci prev s g)" and
    b: "(m2, r, g') \<in> set (rxm b ci (prev_after prev m1) s1 g1)" and m: "m = m1 @ m2"
    by (auto simp: in_seq_results)
  from Seq.IH(1) [OF a] Seq.IH(2) [OF b] m show ?case by auto
next
  case (Plus k)
  then show ?case by (auto dest!: in_one_then in_star_splits)
next
  case (LazyPlus k)
  then show ?case by (auto dest!: in_one_then in_lazy_splits)
next
  case (Ahead a)
  then show ?case by (auto split: list.splits)
qed (auto split: list.splits if_splits dest!: in_star_splits in_rep_splits)

lemma rxm_groups:
  "(m, r, g') \<in> set (rxm rx ci prev s g) \<Longrightarrow> g' n = Some t \<Longrightarrow> g n = Some t \<or> t \<in> glang rx ci n"
proof (induction rx arbitrary: m r g' prev s g)
  case (Seq a b)
  from Seq.prems(1) obtain m1 s1 g1 m2 where
    a: "(m1, s1, g1) \<in> set (rxm a ci prev s g)" and
    b: "(m2, r, g') \<in> set (rxm b ci (prev_after prev m1) s1 g1)"
    by (auto simp: in_seq_results)
  from Seq.IH(2) [OF b Seq.prems(2)] Seq.IH(1) [OF a] show ?case by auto
next
  case (Alt a b)
  from Alt.prems(1) consider "(m, r, g') \<in> set (rxm a ci prev s g)" | "(m, r, g') \<in> set (rxm b ci prev s g)"
    by auto
  then show ?case
  proof cases
    case 1
    from Alt.IH(1) [OF 1 Alt.prems(2)] show ?thesis by auto
  next
    case 2
    from Alt.IH(2) [OF 2 Alt.prems(2)] show ?thesis by auto
  qed
next
  case (Grp k a)
  from Grp.prems(1) obtain g1 where a: "(m, r, g1) \<in> set (rxm a ci prev s g)" and g: "g' = g1(k \<mapsto> m)"
    by auto
  show ?case
  proof (cases "k = n")
    case True
    with g Grp.prems(2) have "t = m" by simp
    with rxm_sound [OF a] True show ?thesis by simp
  next
    case False
    with g Grp.prems(2) have "g1 n = Some t" by simp
    from Grp.IH [OF a this] show ?thesis by auto
  qed
next
  case (Ahead a)
  from Ahead.prems(1) obtain m1 r1 rest where "rxm a ci prev s g = (m1, r1, g') # rest"
    by (cases "rxm a ci prev s g") auto
  then have "(m1, r1, g') \<in> set (rxm a ci prev s g)" by simp
  from Ahead.IH [OF this Ahead.prems(2)] show ?case by simp
qed (auto split: list.splits if_splits)

lemma rxm_sets:
  "(m, r, g') \<in> set (rxm rx ci prev s g) \<Longrightarrow> sets_group rx n \<or> g n \<noteq> None \<Longrightarrow> g' n \<noteq> None"
proof (induction rx arbitrary: m r g' prev s g)
  case (Seq a b)
  from Seq.prems(1) obtain m1 s1 g1 m2 where
    a: "(m1, s1, g1) \<in> set (rxm a ci prev s g)" and
    b: "(m2, r, g') \<in> set (rxm b ci (prev_after prev m1) s1 g1)"
    by (auto simp: in_seq_results)
  from Seq.prems(2) Seq.IH(1) [OF a] have "sets_group b n \<or> g1 n \<noteq> None" by auto
  from Seq.IH(2) [OF b this] show ?case .
next
  case (Ahead a)
  from Ahead.prems(1) obtain m1 r1 rest where "rxm a ci prev s g = (m1, r1, g') # rest"
    by (cases "rxm a ci prev s g") auto
  then have "(m1, r1, g') \<in> set (rxm a ci prev s g)" by simp
  from Ahead.IH [OF this] Ahead.prems(2) show ?case by simp
qed (auto split: list.splits if_splits)

lemma search_from_in:
  "search_from ci rx prev s = Some (m, g) \<Longrightarrow>
     \<exists>prev' s' r. (m, r, g) \<in> set (rxm rx ci prev' s' (\<lambda>_. None))"
proof (induction s arbitrary: prev)
  case Nil
  then obtain a l where "rxm rx ci prev [] (\<lambda>_. None) = (m, a, g) # l"
    by (cases "rxm rx ci prev [] (\<lambda>_. None)") auto
  then have "(m, a, g) \<in> set (rxm rx ci prev [] (\<lambda>_. None))" by simp
  then show ?case by blast
next
  case (Cons x xs)
  show ?case
  proof (cases "rxm rx ci prev (x # xs) (\<lambda>_. None)")
    case Nil
    with Cons.prems have "search_from ci rx (Some x) xs = Some (m, g)" by simp
    from Cons.IH [OF this] show ?thesis .
  next
    case (Cons a list)
    with Cons.prems have "(m, fst (snd a), g) \<in> set (rxm rx ci prev (x # xs) (\<lambda>_. None))"
      by (cases a) auto
    then show ?thesis by blast
  qed
qed

lemma re_search_group:
  assumes "re_search ci rx s = Some mt"
  shows "snd mt n = Some t \<Longrightarrow> t \<in> glang rx ci n"
    and "sets_group rx n \<Longrightarrow> snd mt n \<noteq> None"
proof -
  obtain m g where mt: "mt = (m, g)" by (cases mt)
  with assms obtain prev' s' r where i: "(m, r, g) \<in> set (rxm rx ci prev' s' (\<lambda>_. None))"
    unfolding re_search_def by (blast dest: search_from_in)
  show "snd mt n = Some t \<Longrightarrow> t \<in> glang rx ci n"
    using rxm_groups [OF i, of n t] mt by simp
  show "sets_group rx n \<Longrightarrow> snd mt n \<noteq> None"
    using rxm_sets [OF i, of n] mt by simp
qed

lemma re_match_group:
  assumes "re_match ci rx s = Some mt"
  shows "snd mt n = Some t \<Longrightarrow> t \<in> glang rx ci n"
    and "sets_group rx n \<Longrightarrow> snd mt n \<noteq> None"
proof -
  obtain m g where mt: "mt = (m, g)" by (cases mt)
  with assms obtain r where i: "(m, r, g) \<in> set (rxm rx ci None s (\<lambda>_. None))"
    unfolding re_match_def by (cases "rxm rx ci None s (\<lambda>_. None)") auto
  show "snd mt n = Some t \<Longrightarrow> t \<in> glang rx ci n"
    using rxm_groups [OF i, of n t] mt by simp
  show "sets_group rx n \<Longrightarrow> snd mt n \<noteq> None"
    using rxm_sets [OF i, of n] mt by simp
qed

section \<open>The summary of a block\<close>

definition summary_keys :: "string list" where
  "summary_keys = [''Semester'', ''Even/Odd'', ''Total Marks Obt.'', ''Result Status'', ''SGPA'']"

definition digit_string :: "string \<Rightarrow> bool" where
  "digit_string d = (d \<noteq> [] \<and> list_all is_digit d)"

definition summary_wf :: "summary \<Rightarrow> bool" where
  "summary_wf s = (map fst s = summary_keys
     \<and> (case dict_get s ''Semester'' of None \<Rightarrow> False | Some d \<Rightarrow> digit_string d))"

lemma dict_set_keys: "k \<in> set (map fst d) \<Longrightarrow> map fst (dict_set d k v) = map fst d"
  by (induction d) force+

lemma dict_get_set: "dict_get (dict_set d k v) k' = (if k' = k then Some v else dict_get d k')"
  by (induction d) (auto simp: dict_get_def)

lemma set_if_wf:
  assumes "summary_wf s" and "key \<in> set summary_keys" and "key \<noteq> ''Semester''"
  shows "summary_wf (set_if m key f s)"
  using assms by (cases m) (auto simp: set_if_def summary_wf_def dict_set_keys dict_get_set)

lemma capture_summary_wf: "summary_wf s \<Longrightarrow> summary_wf (capture_summary s l)"
  unfolding capture_summary_def
  by (intro set_if_wf) (simp_all add: summary_keys_def)

lemma semester_group_digits:
  assumes "re_search True re_semester l = Some m"
  shows "digit_string (group m 1)"
proof -
  have "sets_group re_semester 1" by (simp add: re_semester_def word_def)
  from re_search_group(2) [OF assms this] obtain t where t: "snd m 1 = Some t" by auto
  from re_search_group(1) [OF assms t] have "t \<in> glang re_semester True 1" .
  then have "t \<noteq> [] \<and> (\<forall>c \<in> set t. is_digit c)"
    by (simp add: re_semester_def word_def)
  with t show ?thesis by (simp add: group_def digit_string_def list_all_iff)
qed

lemma new_summary_wf:
  "re_search True re_semester l = Some m \<Longrightarrow> summary_wf (new_summary (group m 1))"
  by (drule semester_group_digits) (simp add: summary_wf_def new_summary_def summary_keys_def dict_get_def)

lemma summary_wf_no_total: "summary_wf s \<Longrightarrow> dict_get s ''Total Subjects'' = None"
proof -
  assume "summary_wf s"
  then have "set (map fst s) = set summary_keys" by (simp add: summary_wf_def)
  then have "''Total Subjects'' \<notin> fst ` set s" by (simp add: summary_keys_def)
  then show ?thesis by (simp add: dict_get_def map_of_eq_None_iff)
qed

lemma soft_check_skipped: "summary_wf s \<Longrightarrow> soft_check s = Inr ()"
  by (simp add: soft_check_def summary_wf_no_total)

lemma finalize_opt_total:
  assumes "\<And>s. c = Some s \<Longrightarrow> summary_wf s"
  shows "finalize_opt c t bl = Inr (case c of None \<Rightarrow> bl | Some s \<Rightarrow>
           if t = [] then bl else bl @ [\<lparr>summary = s, header = header_cols, rows = t\<rparr>])"
  using assms by (cases c) (auto simp: finalize_opt_def finalize_block_def soft_check_skipped)

lemma summary_loop_total:
  "(\<And>s. c = Some s \<Longrightarrow> summary_wf s) \<Longrightarrow> \<exists>r. summary_loop c ls bl = Inr r"
proof (induction c ls bl rule: summary_loop.induct)
  case (1 c bl)
  then show ?case by simp
next
  case (2 c x xs bl)
  show ?case
  proof (cases "is_header (strip x)")
    case True
    obtain r t u where rl: "row_loop xs [] [] = (r, t, u)"
      by (cases "row_loop xs [] []") auto
    from finalize_opt_total [OF "2.prems"] obtain b1 where
      f: "finalize_opt c (flush_buffer t u) bl = Inr b1" by blast
    from "2.IH"(1) [OF True rl [symmetric] refl f] obtain r' where "summary_loop None r b1 = Inr r'"
      by auto
    with True rl f show ?thesis by simp
  next
    case False
    show ?thesis
    proof (cases "re_search True re_semester (strip x) \<noteq> None")
      case True
      with False show ?thesis by (simp add: Let_def)
    next
      case stay: False
      have "\<And>s. map_option (\<lambda>s. capture_summary s (strip x)) c = Some s \<Longrightarrow> summary_wf s"
        using "2.prems" by (auto intro: capture_summary_wf)
      from "2.IH"(2) [OF False refl stay this] False stay show ?thesis by (simp add: Let_def)
    qed
  qed
qed

lemma page_loop_total: "\<exists>r. page_loop ls bl = Inr r"
proof (induction ls bl rule: page_loop.induct)
  case (1 bl)
  then show ?case by simp
next
  case (2 x xs bl)
  show ?case
  proof (cases "re_search True re_semester (strip x)")
    case None
    with "2.IH"(1) [OF None] show ?thesis by simp
  next
    case (Some m)
    have "\<exists>r. summary_loop (Some (new_summary (group m 1))) xs bl = Inr r"
      using new_summary_wf [OF Some] by (intro summary_loop_total) simp
    then obtain rest b1 where s: "summary_loop (Some (new_summary (group m 1))) xs bl = Inr (rest, b1)"
      by (cases) auto
    from "2.IH"(2) [OF Some s refl] Some s show ?thesis by simp
  qed
qed

lemma pages_loop_total: "\<exists>r. pages_loop ps bl = Inr r"
proof (induction ps arbitrary: bl)
  case Nil
  then show ?case by simp
next
  case (Cons a ps)
  obtain b1 where "page_loop a bl = Inr b1" using page_loop_total by blast
  with Cons.IH [of b1] show ?case by simp
qed

lemma extract_total: "\<exists>gi bl. extract_marksheet_blocks pdf = Inr (gi, bl)"
proof -
  obtain bl where "pages_loop (map page_lines pdf) [] = Inr bl" using pages_loop_total by blast
  then show ?thesis by (simp add: extract_marksheet_blocks_def)
qed




section \<open>Where the rows of a block end\<close>

lemma lang_seqs_Cons: "rs \<noteq> [] \<Longrightarrow> lang (seqs (r # rs)) ci = lang (Seq r (seqs rs)) ci"
  by (cases rs) simp_all

lemma lang_word:
  "w \<in> lang (word u) ci \<Longrightarrow> u \<noteq> [] \<Longrightarrow> list_all2 (chr_eq ci) u w"
proof (induction u arbitrary: w)
  case Nil
  then show ?case by simp
next
  case (Cons p ps)
  show ?case
  proof (cases ps)
    case Nil
    with Cons.prems show ?thesis by (auto simp: word_def)
  next
    case (Cons q qs)
    with Cons.prems obtain c y where "w = c # y" "chr_eq ci p c" "y \<in> lang (word ps) ci"
      by (auto simp: word_def)
    with Cons.IH [of y] Cons show ?thesis by simp
  qed
qed

lemma chr_eq_lower: "chr_eq True p c \<Longrightarrow> lower_char c = lower_char p"
  by (auto simp: chr_eq_def)

lemma word_lower:
  assumes "w \<in> lang (word u) True" and "u \<noteq> []"
  shows "lower w = lower u \<and> length w = length u"
proof -
  from lang_word [OF assms] have "list_all2 (chr_eq True) u w" .
  then show ?thesis
    unfolding lower_def by (induction rule: list_all2_induct) (auto dest: chr_eq_lower)
qed

lemma search_from_anchored: "search_from ci (Seq Bol r) (Some c) s = None"
  by (induction s arbitrary: c) simp_all

lemma re_search_anchored:
  assumes "re_search ci (Seq Bol r) s = Some (m, g)"
  shows "\<exists>rest. (m, rest, g) \<in> set (rxm r ci None s (\<lambda>_. None))"
proof (cases "rxm r ci None s (\<lambda>_. None)")
  case Nil
  with assms show ?thesis
    by (cases s) (simp_all add: re_search_def prev_after_def search_from_anchored)
next
  case (Cons a l)
  with assms have "a = (m, fst (snd a), g)"
    by (cases s; cases a) (simp_all add: re_search_def prev_after_def)
  with Cons show ?thesis by (metis list.set_intros(1))
qed

lemma is_space_lower: "is_space c \<Longrightarrow> lower_char c = c"
  by (auto simp: is_space_def lower_char_def Let_def)

lemma lower_not_space: "lower_char c = lower_char p \<Longrightarrow> \<not> is_space (lower_char p) \<Longrightarrow> \<not> is_space c"
  using is_space_lower by fastforce

definition heading_start :: "string \<Rightarrow> bool" where
  "heading_start l = (startswith (lower (lstrip l)) ''semester''
      \<or> startswith (lower l) ''minor'' \<or> startswith (lower l) ''major'')"

lemma semester_line_start:
  assumes "re_search True re_semester l = Some mg"
  shows "startswith (lower (lstrip l)) ''semester''"
proof -
  obtain m g where mg: "mg = (m, g)" by (cases mg)
  define r where "r = seqs [Star Space, word ''Semester'', Star Space, Lit CHR '':'', Star Space,
    Grp 1 (Plus Digit)]"
  have "re_semester = Seq Bol r" by (simp add: re_semester_def r_def)
  with assms mg have "re_search True (Seq Bol r) l = Some (m, g)" by simp
  then obtain rest where "(m, rest, g) \<in> set (rxm r True None l (\<lambda>_. None))"
    by (blast dest: re_search_anchored)
  from rxm_sound [OF this] have l: "l = m @ rest" and "m \<in> lang r True" by auto
  then obtain sp w y where m: "m = sp @ w @ y" and sp: "\<forall>c \<in> set sp. is_space c"
    and w: "w \<in> lang (word ''Semester'') True"
    unfolding r_def by auto
  from word_lower [OF w] have lw: "lower w = lower ''Semester''" and len: "length w = 8" by auto
  then obtain c cs where wc: "w = c # cs" by (cases w) auto
  with lw have "lower_char c = lower_char CHR ''S''" by (simp add: lower_def)
  moreover have "\<not> is_space (lower_char CHR ''S'')"
    by (simp add: lower_char_def is_space_def cp_def Let_def)
  ultimately have "\<not> is_space c" by (rule lower_not_space)
  with sp wc have "lstrip l = w @ y @ rest"
    unfolding lstrip_def l m by (simp add: dropWhile_append3)
  then have "take (length ''semester'') (lower (lstrip l)) = lower w"
    using len by (simp add: lower_def)
  also have "\<dots> = ''semester''"
    unfolding lw by code_simp
  finally show ?thesis by (simp add: startswith_def)
qed

lemma result_line_start:
  assumes "re_search True heading_result_regex l = Some mg"
  shows "startswith (lower l) ''minor'' \<or> startswith (lower l) ''major''"
proof -
  obtain m g where mg: "mg = (m, g)" by (cases mg)
  define r where "r = seqs [Alt (word ''Minor'') (word ''Major''), Star Space, word ''Result'']"
  have "heading_result_regex = Seq Bol r" by (simp add: heading_result_regex_def r_def)
  with assms mg have "re_search True (Seq Bol r) l = Some (m, g)" by simp
  then obtain rest where "(m, rest, g) \<in> set (rxm r True None l (\<lambda>_. None))"
    by (blast dest: re_search_anchored)
  from rxm_sound [OF this] have l: "l = m @ rest" and "m \<in> lang r True" by auto
  then obtain w y where m: "m = w @ y"
    and w: "w \<in> lang (word ''Minor'') True \<or> w \<in> lang (word ''Major'') True"
    unfolding r_def by auto
  from w word_lower [of w] have "length w = 5" and "lower w = lower ''Minor'' \<or> lower w = lower ''Major''"
    by auto
  moreover have "lower ''Minor'' = ''minor''" "lower ''Major'' = ''major''"
    by code_simp+
  moreover have "take (length ''minor'') (lower l) = lower w"
    unfolding l m using \<open>length w = 5\<close> by (simp add: lower_def)
  ultimately show ?thesis by (auto simp: startswith_def)
qed

lemma is_stop_start: "is_stop l \<Longrightarrow> heading_start l"
  unfolding is_stop_def heading_start_def
  by (auto dest: semester_line_start result_line_start)

lemma row_loop_rest: "fst (row_loop ls t b) = dropWhile (\<lambda>l. \<not> is_stop (strip l)) ls"
  by (induction ls arbitrary: t b) (auto split: prod.splits)

text \<open>
  Claim C6. The row loop ends exactly at the first line that is a stop line (a
  "Semester :" heading or a Minor/Major Result heading), or at the end of the page when
  there is none; and a stop line starts, up to letter case, with "semester", "minor" or
  "major", so a table line that merely contains "Total" or "SGPA" never ends the rows.
\<close>

theorem row_collection_stops_at_headings_only:
  "fst (row_loop ls table_rows buffer) = dropWhile (\<lambda>l. \<not> is_stop (strip l)) ls
   \<and> (is_stop l \<longrightarrow> heading_start l)"
  using is_stop_start [of l] row_loop_rest [of ls table_rows buffer] by blast

theorem row_collection_stops_at_headings_only_witness:
  "is_stop ''Semester : 2'' \<and> heading_start ''Semester : 2''
   \<and> fst (row_loop [''MGT301 Total Quality Mgmt Theory 40 50 -- A'', ''Total : 450 SGPA : 8.1'',
                    ''Minor Result'', ''CSE102 X Lab 20''] [] []) = [''Minor Result'', ''CSE102 X Lab 20'']"
proof -
  have s: "is_stop ''Semester : 2''" by code_simp
  have d: "dropWhile (\<lambda>l. \<not> is_stop (strip l))
      [''MGT301 Total Quality Mgmt Theory 40 50 -- A'', ''Total : 450 SGPA : 8.1'',
       ''Minor Result'', ''CSE102 X Lab 20''] = [''Minor Result'', ''CSE102 X Lab 20'']"
    by code_simp
  from row_collection_stops_at_headings_only
    [of "[''MGT301 Total Quality Mgmt Theory 40 50 -- A'', ''Total : 450 SGPA : 8.1'',
                    ''Minor Result'', ''CSE102 X Lab 20'']" "[]" "[]" "''Semester : 2''"] s d
  show ?thesis by simp
qed

section \<open>Chaining of blocks\<close>

lemma header_line_start:
  assumes "is_header l"
  shows "startswith (lower (lstrip l)) ''code''"
proof -
  from assms obtain m g where mg: "re_search True header_regex l = Some (m, g)"
    by (auto simp: is_header_def)
  define r where "r = seqs [Star Space, word ''Code'', Plus Space, word ''Name'', Plus Space,
     word ''Type'', Plus Space, word ''Internal'', Plus Space, word ''External'', Plus Space,
     word ''Back'', Plus Space, word ''Paper'', Plus Space, word ''Grade'', Star Space, Eol]"
  have "header_regex = Seq Bol r" by (simp add: header_regex_def r_def)
  with mg have "re_search True (Seq Bol r) l = Some (m, g)" by simp
  then obtain rest where "(m, rest, g) \<in> set (rxm r True None l (\<lambda>_. None))"
    by (blast dest: re_search_anchored)
  from rxm_sound [OF this] have l: "l = m @ rest" and "m \<in> lang r True" by auto
  then obtain sp w y where m: "m = sp @ w @ y" and sp: "\<forall>c \<in> set sp. is_space c"
    and w: "w \<in> lang (word ''Code'') True"
    unfolding r_def by auto
  from word_lower [OF w] have lw: "lower w = lower ''Code''" and len: "length w = 4" by auto
  then obtain c cs where wc: "w = c # cs" by (cases w) auto
  with lw have "lower_char c = lower_char CHR ''C''" by (simp add: lower_def)
  moreover have "\<not> is_space (lower_char CHR ''C'')"
    by (simp add: lower_char_def is_space_def cp_def Let_def)
  ultimately have "\<not> is_space c" by (rule lower_not_space)
  with sp wc have "lstrip l = w @ y @ rest"
    unfolding lstrip_def l m by (simp add: dropWhile_append3)
  then have "take (length ''code'') (lower (lstrip l)) = lower w"
    using len by (simp add: lower_def)
  also have "\<dots> = ''code''"
    unfolding lw by code_simp
  finally show ?thesis by (simp add: startswith_def)
qed

lemma startswith_both:
  assumes "startswith s p" and "startswith s q" and "length q \<le> length p"
  shows "take (length q) p = q"
proof -
  from assms(1) have "take (length q) p = take (length q) (take (length p) s)"
    by (simp add: startswith_def)
  also from assms(3) have "\<dots> = take (length q) s" by (simp add: min_def)
  also from assms(2) have "\<dots> = q" by (simp add: startswith_def)
  finally show ?thesis .
qed

lemma header_not_semester:
  assumes "is_header l"
  shows "re_search True re_semester l = None"
proof (cases "re_search True re_semester l")
  case None
  then show ?thesis .
next
  case (Some mg)
  from startswith_both [OF semester_line_start [OF Some] header_line_start [OF assms]]
  show ?thesis by simp
qed

lemma semester_not_header:
  assumes "re_search True re_semester l \<noteq> None"
  shows "\<not> is_header l"
proof
  assume "is_header l"
  from header_not_semester [OF this] assms show False by simp
qed

lemma not_stop_not_semester: "\<not> is_stop l \<Longrightarrow> re_search True re_semester l = None"
  unfolding is_stop_def by blast

lemma semester_is_stop: "re_search True re_semester l \<noteq> None \<Longrightarrow> is_stop l"
  by (simp add: is_stop_def)

lemma row_loop_append_stop:
  assumes "is_stop (strip s)"
  shows "row_loop (xs @ s # ys) t b =
     (case row_loop xs t b of (rest, t', b') \<Rightarrow> (rest @ s # ys, t', b'))"
  using assms by (induction xs arbitrary: t b) (auto split: prod.splits)

lemma summary_loop_append_semester:
  assumes s: "re_search True re_semester (strip s) \<noteq> None"
  shows "summary_loop c (xs @ s # ys) bl =
     (case summary_loop c xs bl of Inl e \<Rightarrow> Inl e | Inr (rest, b1) \<Rightarrow> Inr (rest @ s # ys, b1))"
proof (induction c xs bl rule: summary_loop.induct)
  case (1 c bl)
  from s have "\<not> is_header (strip s)" by (rule semester_not_header)
  with s show ?case by (simp add: Let_def)
next
  case (2 c x xs bl)
  show ?case
  proof (cases "is_header (strip x)")
    case True
    obtain r t u where rl: "row_loop xs [] [] = (r, t, u)"
      by (cases "row_loop xs [] []") auto
    with row_loop_append_stop [OF semester_is_stop [OF s], of xs ys "[]" "[]"]
    have rl': "row_loop (xs @ s # ys) [] [] = (r @ s # ys, t, u)" by simp
    show ?thesis
    proof (cases "finalize_opt c (flush_buffer t u) bl")
      case (Inl e)
      with True rl rl' show ?thesis by simp
    next
      case (Inr b1)
      from "2.IH"(1) [OF True rl [symmetric] refl Inr] True rl rl' Inr show ?thesis by simp
    qed
  next
    case False
    show ?thesis
    proof (cases "re_search True re_semester (strip x) \<noteq> None")
      case True
      with False show ?thesis by (simp add: Let_def)
    next
      case stay: False
      from "2.IH"(2) [OF False refl stay] False stay show ?thesis by (simp add: Let_def)
    qed
  qed
qed

lemma page_loop_append_semester:
  assumes s: "re_search True re_semester (strip s) \<noteq> None"
  shows "page_loop (xs @ s # ys) bl =
     (case page_loop xs bl of Inl e \<Rightarrow> Inl e | Inr b1 \<Rightarrow> page_loop (s # ys) b1)"
proof (induction xs bl rule: page_loop.induct)
  case (1 bl)
  show ?case by simp
next
  case (2 x xs bl)
  show ?case
  proof (cases "re_search True re_semester (strip x)")
    case None
    with "2.IH"(1) [OF None] show ?thesis by simp
  next
    case (Some m)
    show ?thesis
    proof (cases "summary_loop (Some (new_summary (group m 1))) xs bl")
      case (Inl e)
      with Some summary_loop_append_semester [OF s, of "Some (new_summary (group m 1))" xs ys bl]
      show ?thesis by simp
    next
      case (Inr p)
      obtain rest b1 where p: "p = (rest, b1)" by (cases p)
      with Inr Some summary_loop_append_semester [OF s, of "Some (new_summary (group m 1))" xs ys bl]
        "2.IH"(2) [OF Some Inr [unfolded p] refl]
      show ?thesis by simp
    qed
  qed
qed

lemma page_loop_skip:
  "\<forall>l \<in> set pre. re_search True re_semester (strip l) = None \<Longrightarrow>
     page_loop (pre @ rest) bl = page_loop rest bl"
  by (induction pre) simp_all

lemma row_loop_skipped:
  "row_loop xs t b = (rest, t', b') \<Longrightarrow> page_loop xs bl = page_loop rest bl"
proof -
  assume "row_loop xs t b = (rest, t', b')"
  with row_loop_rest [of xs t b] have r: "rest = dropWhile (\<lambda>l. \<not> is_stop (strip l)) xs" by simp
  have "\<forall>l \<in> set (takeWhile (\<lambda>l. \<not> is_stop (strip l)) xs). re_search True re_semester (strip l) = None"
    by (auto dest!: set_takeWhileD not_stop_not_semester)
  from page_loop_skip [OF this, of rest bl] show ?thesis unfolding r by simp
qed

lemma summary_loop_None_scan:
  "c = None \<Longrightarrow>
   (case summary_loop c ls bl of Inl e \<Rightarrow> Inl e | Inr (rest, b1) \<Rightarrow> page_loop rest b1) = page_loop ls bl"
proof (induction c ls bl rule: summary_loop.induct)
  case (1 c bl)
  show ?case by simp
next
  case (2 c x xs bl)
  show ?case
  proof (cases "is_header (strip x)")
    case True
    obtain r t u where rl: "row_loop xs [] [] = (r, t, u)"
      by (cases "row_loop xs [] []") auto
    from "2.prems" have f: "finalize_opt c (flush_buffer t u) bl = Inr bl"
      by (simp add: finalize_opt_def)
    from "2.IH"(1) [OF True rl [symmetric] refl f refl]
    have "(case summary_loop None r bl of Inl e \<Rightarrow> Inl e | Inr (rest, b1) \<Rightarrow> page_loop rest b1)
       = page_loop r bl" .
    also have "\<dots> = page_loop xs bl" using row_loop_skipped [OF rl] by simp
    also have "\<dots> = page_loop (x # xs) bl" using header_not_semester [OF True] by simp
    finally show ?thesis using True rl f by simp
  next
    case False
    show ?thesis
    proof (cases "re_search True re_semester (strip x) \<noteq> None")
      case True
      with False show ?thesis by (simp add: Let_def)
    next
      case stay: False
      then have n: "re_search True re_semester (strip x) = None" by blast
      from "2.IH"(2) [OF False refl stay] "2.prems" False n show ?thesis
        by (simp add: Let_def)
    qed
  qed
qed

text \<open>The rows, the summary and the emitted block of the lines of one block.\<close>

definition block_rows :: "string list \<Rightarrow> string list list" where
  "block_rows rs = (case row_loop rs [] [] of (rest, table_rows, buffer) \<Rightarrow> flush_buffer table_rows buffer)"

definition block_summary :: "string \<times> caps \<Rightarrow> string list \<Rightarrow> summary" where
  "block_summary m_sem ms = foldl (\<lambda>s l. capture_summary s (strip l)) (new_summary (group m_sem 1)) ms"

definition emitted :: "summary \<Rightarrow> string list list \<Rightarrow> block list" where
  "emitted s table_rows =
     (if table_rows = [] then [] else [\<lparr>summary = s, header = header_cols, rows = table_rows\<rparr>])"

lemma row_loop_no_stop:
  "\<forall>l \<in> set rs. \<not> is_stop (strip l) \<Longrightarrow> fst (row_loop rs t b) = []"
  by (simp add: row_loop_rest)

lemma foldl_capture_wf:
  "summary_wf s \<Longrightarrow> summary_wf (foldl (\<lambda>s l. capture_summary s (strip l)) s ms)"
  by (induction ms arbitrary: s) (simp_all add: capture_summary_wf)

lemma block_summary_wf:
  "re_search True re_semester l = Some m \<Longrightarrow> summary_wf (block_summary m ms)"
  unfolding block_summary_def by (rule foldl_capture_wf) (erule new_summary_wf)

lemma summary_loop_summary_lines:
  assumes "\<forall>l \<in> set ms. \<not> is_header (strip l) \<and> re_search True re_semester (strip l) = None"
  shows "summary_loop (Some s) (ms @ ls) bl =
     summary_loop (Some (foldl (\<lambda>s l. capture_summary s (strip l)) s ms)) ls bl"
  using assms by (induction ms arbitrary: s) (simp_all add: Let_def)

lemma summary_loop_block_stop:
  assumes h: "is_header (strip h)" and rs: "\<forall>l \<in> set rs. \<not> is_stop (strip l)"
    and st: "is_stop (strip s)" and wf: "summary_wf sm"
  shows "summary_loop (Some sm) (h # rs @ s # ls) bl =
     summary_loop None (s # ls) (bl @ emitted sm (block_rows rs))"
proof -
  obtain r t u where rl: "row_loop rs [] [] = (r, t, u)" by (cases "row_loop rs [] []") auto
  with row_loop_no_stop [OF rs, of "[]" "[]"] have r: "r = []" by simp
  from row_loop_append_stop [OF st, of rs ls "[]" "[]"] rl r
  have rl': "row_loop (rs @ s # ls) [] [] = (s # ls, t, u)" by simp
  have f: "finalize_opt (Some sm) (flush_buffer t u) bl = Inr (bl @ emitted sm (flush_buffer t u))"
    using wf by (simp add: finalize_opt_def finalize_block_def soft_check_skipped emitted_def)
  have br: "block_rows rs = flush_buffer t u" by (simp add: block_rows_def rl)
  show ?thesis
    unfolding summary_loop.simps(2) [of "Some sm" h] using h by (simp add: rl' f br)
qed

lemma summary_loop_block_end:
  assumes h: "is_header (strip h)" and rs: "\<forall>l \<in> set rs. \<not> is_stop (strip l)"
    and wf: "summary_wf sm"
  shows "summary_loop (Some sm) (h # rs) bl = Inr ([], bl @ emitted sm (block_rows rs))"
proof -
  obtain r t u where rl: "row_loop rs [] [] = (r, t, u)" by (cases "row_loop rs [] []") auto
  with row_loop_no_stop [OF rs, of "[]" "[]"] have r: "r = []" by simp
  have f: "finalize_opt (Some sm) (flush_buffer t u) bl = Inr (bl @ emitted sm (flush_buffer t u))"
    using wf by (simp add: finalize_opt_def finalize_block_def soft_check_skipped emitted_def)
  have br: "block_rows rs = flush_buffer t u" by (simp add: block_rows_def rl)
  show ?thesis
    unfolding summary_loop.simps(2) [of "Some sm" h] using h by (simp add: rl r f br)
qed

lemma page_loop_block_stop:
  assumes s1: "re_search True re_semester (strip s1) = Some m1"
    and ms: "\<forall>l \<in> set ms. \<not> is_header (strip l) \<and> re_search True re_semester (strip l) = None"
    and h: "is_header (strip h)" and rs: "\<forall>l \<in> set rs. \<not> is_stop (strip l)"
    and st: "is_stop (strip s)"
  shows "page_loop (s1 # ms @ h # rs @ s # ls) bl =
     page_loop (s # ls) (bl @ emitted (block_summary m1 ms) (block_rows rs))"
proof -
  let ?E = "bl @ emitted (block_summary m1 ms) (block_rows rs)"
  have "summary_loop (Some (new_summary (group m1 1))) (ms @ h # rs @ s # ls) bl =
      summary_loop (Some (block_summary m1 ms)) (h # rs @ s # ls) bl"
    unfolding block_summary_def by (rule summary_loop_summary_lines [OF ms])
  also have "\<dots> = summary_loop None (s # ls) ?E"
    by (rule summary_loop_block_stop [OF h rs st block_summary_wf [OF s1]])
  finally have "page_loop (s1 # ms @ h # rs @ s # ls) bl =
      (case summary_loop None (s # ls) ?E of Inl e \<Rightarrow> Inl e | Inr (rest, b1) \<Rightarrow> page_loop rest b1)"
    using s1 by simp
  also have "\<dots> = page_loop (s # ls) ?E" by (rule summary_loop_None_scan [OF refl])
  finally show ?thesis .
qed

lemma page_loop_block_end:
  assumes s1: "re_search True re_semester (strip s1) = Some m1"
    and ms: "\<forall>l \<in> set ms. \<not> is_header (strip l) \<and> re_search True re_semester (strip l) = None"
    and h: "is_header (strip h)" and rs: "\<forall>l \<in> set rs. \<not> is_stop (strip l)"
  shows "page_loop (s1 # ms @ h # rs) bl = Inr (bl @ emitted (block_summary m1 ms) (block_rows rs))"
proof -
  have "summary_loop (Some (new_summary (group m1 1))) (ms @ h # rs) bl =
      summary_loop (Some (block_summary m1 ms)) (h # rs) bl"
    unfolding block_summary_def by (rule summary_loop_summary_lines [OF ms])
  also have "\<dots> = Inr ([], bl @ emitted (block_summary m1 ms) (block_rows rs))"
    by (rule summary_loop_block_end [OF h rs block_summary_wf [OF s1]])
  finally show ?thesis using s1 by simp
qed

lemma parse_empty: "parse_row_to_columns [] = None"
  by code_simp

lemma row_loop_rows_parse:
  assumes "\<forall>l \<in> set rs. \<not> is_stop (strip l) \<and> \<not> is_header (strip l)
      \<and> parse_row_to_columns (strip l) \<noteq> None"
  shows "row_loop rs t [] = ([], t @ map (\<lambda>l. the (parse_row_to_columns (strip l))) rs, [])"
  using assms
proof (induction rs arbitrary: t)
  case Nil
  show ?case by simp
next
  case (Cons l rs)
  from Cons.prems obtain r where p: "parse_row_to_columns (strip l) = Some r"
    and ns: "\<not> is_stop (strip l)" and nh: "\<not> is_header (strip l)" by auto
  from p parse_empty have ne: "strip l \<noteq> []" by auto
  from p nh ne have "row_line (strip l) t [] = (t @ [r], [])"
    by (simp add: row_line_def joined_def)
  with ns Cons.IH [of "t @ [r]"] Cons.prems p show ?case by simp
qed

lemma block_rows_parse:
  assumes "\<forall>l \<in> set rs. \<not> is_stop (strip l) \<and> \<not> is_header (strip l)
      \<and> parse_row_to_columns (strip l) \<noteq> None"
  shows "block_rows rs = map (\<lambda>l. the (parse_row_to_columns (strip l))) rs"
  using row_loop_rows_parse [OF assms, of "[]"] by (simp add: block_rows_def flush_buffer_def)

text \<open>
  Claim C7. Take a block: a "Semester :" line \<open>s1\<close>, summary lines \<open>ms1\<close> (no header and no
  "Semester :" line among them), a header line \<open>h1\<close> and table lines \<open>rs1\<close> (no stop line
  among them). When a stop line \<open>s\<close> follows, the block is finalized: the blocks so far
  are extended, at the end, by the block of these lines (its summary from \<open>s1\<close> and
  \<open>ms1\<close>, its rows from \<open>rs1\<close> alone; nothing is appended if there is no row), and the scan
  of the page goes on at the stop line itself, which is not consumed. Consequently two
  such blocks back to back give the block of the first followed by the block of the
  second, each made from its own lines only. And when every table line of a block
  parses as a row by itself, the rows of the block are these parsed lines, in order.
\<close>

theorem stop_line_reevaluated:
  assumes s1: "re_search True re_semester (strip s1) = Some m1"
    and ms1: "\<forall>l \<in> set ms1. \<not> is_header (strip l) \<and> re_search True re_semester (strip l) = None"
    and h1: "is_header (strip h1)" and rs1: "\<forall>l \<in> set rs1. \<not> is_stop (strip l)"
    and s2: "re_search True re_semester (strip s2) = Some m2"
    and ms2: "\<forall>l \<in> set ms2. \<not> is_header (strip l) \<and> re_search True re_semester (strip l) = None"
    and h2: "is_header (strip h2)" and rs2: "\<forall>l \<in> set rs2. \<not> is_stop (strip l)"
  shows "(\<forall>s ls. is_stop (strip s) \<longrightarrow>
            page_loop (s1 # ms1 @ h1 # rs1 @ s # ls) bl =
              page_loop (s # ls) (bl @ emitted (block_summary m1 ms1) (block_rows rs1)))
     \<and> page_loop ((s1 # ms1 @ h1 # rs1) @ (s2 # ms2 @ h2 # rs2)) bl =
         Inr (bl @ emitted (block_summary m1 ms1) (block_rows rs1)
                 @ emitted (block_summary m2 ms2) (block_rows rs2))
     \<and> ((\<forall>l \<in> set rs1. \<not> is_header (strip l) \<and> parse_row_to_columns (strip l) \<noteq> None) \<longrightarrow>
            block_rows rs1 = map (\<lambda>l. the (parse_row_to_columns (strip l))) rs1)"
proof (intro conjI allI impI)
  fix s ls assume "is_stop (strip s)"
  then show "page_loop (s1 # ms1 @ h1 # rs1 @ s # ls) bl =
      page_loop (s # ls) (bl @ emitted (block_summary m1 ms1) (block_rows rs1))"
    by (rule page_loop_block_stop [OF s1 ms1 h1 rs1])
next
  from s2 have st: "is_stop (strip s2)" by (simp add: is_stop_def)
  have "page_loop ((s1 # ms1 @ h1 # rs1) @ (s2 # ms2 @ h2 # rs2)) bl =
      page_loop (s1 # ms1 @ h1 # rs1 @ s2 # (ms2 @ h2 # rs2)) bl" by simp
  also have "\<dots> = page_loop (s2 # ms2 @ h2 # rs2) (bl @ emitted (block_summary m1 ms1) (block_rows rs1))"
    by (rule page_loop_block_stop [OF s1 ms1 h1 rs1 st])
  also have "\<dots> = Inr ((bl @ emitted (block_summary m1 ms1) (block_rows rs1))
      @ emitted (block_summary m2 ms2) (block_rows rs2))"
    by (rule page_loop_block_end [OF s2 ms2 h2 rs2])
  finally show "page_loop ((s1 # ms1 @ h1 # rs1) @ (s2 # ms2 @ h2 # rs2)) bl =
         Inr (bl @ emitted (block_summary m1 ms1) (block_rows rs1)
                 @ emitted (block_summary m2 ms2) (block_rows rs2))" by simp
next
  assume "\<forall>l \<in> set rs1. \<not> is_header (strip l) \<and> parse_row_to_columns (strip l) \<noteq> None"
  with rs1 have "\<forall>l \<in> set rs1. \<not> is_stop (strip l) \<and> \<not> is_header (strip l)
      \<and> parse_row_to_columns (strip l) \<noteq> None" by blast
  then show "block_rows rs1 = map (\<lambda>l. the (parse_row_to_columns (strip l))) rs1"
    by (rule block_rows_parse)
qed

theorem stop_line_reevaluated_witness:
  "page_loop ([''Semester : 1'', ''SGPA : 8.5'', ''Code Name Type Internal External Back Paper Grade'',
               ''CSE101 Data Theory 40 50 -- A'']
              @ [''Semester : 2'', ''Code Name Type Internal External Back Paper Grade'',
               ''CSE201 Algo Lab 30 A'']) [] =
   Inr [\<lparr>summary = [(''Semester'', ''1''), (''Even/Odd'', []), (''Total Marks Obt.'', []),
                      (''Result Status'', []), (''SGPA'', ''8.5'')],
         header = [''Code'', ''Name'', ''Type'', ''Internal'', ''External'', ''Back Paper'', ''Grade''],
         rows = [[''CSE101'', ''Data'', ''Theory'', ''40'', ''50'', ''--'', ''A'']]\<rparr>,
        \<lparr>summary = [(''Semester'', ''2''), (''Even/Odd'', []), (''Total Marks Obt.'', []),
                      (''Result Status'', []), (''SGPA'', [])],
         header = [''Code'', ''Name'', ''Type'', ''Internal'', ''External'', ''Back Paper'', ''Grade''],
         rows = [[''CSE201'', ''Algo'', ''Lab'', ''30'', ''--'', ''--'', ''A'']]\<rparr>]
   \<and> page_loop [''Semester : 1'', ''SGPA : 8.5'', ''Code Name Type Internal External Back Paper Grade'',
               ''CSE101 Data Theory 40 50 -- A'', ''Major Result'', ''CSE999 Ghost Theory 1''] [] =
   Inr [\<lparr>summary = [(''Semester'', ''1''), (''Even/Odd'', []), (''Total Marks Obt.'', []),
                      (''Result Status'', []), (''SGPA'', ''8.5'')],
         header = [''Code'', ''Name'', ''Type'', ''Internal'', ''External'', ''Back Paper'', ''Grade''],
         rows = [[''CSE101'', ''Data'', ''Theory'', ''40'', ''50'', ''--'', ''A'']]\<rparr>]
   \<and> block_rows [''CSE101 Data Theory 40 50 -- A''] =
        [[''CSE101'', ''Data'', ''Theory'', ''40'', ''50'', ''--'', ''A'']]"
proof -
  let ?h = "''Code Name Type Internal External Back Paper Grade''"
  let ?m1 = "the (re_search True re_semester (strip ''Semester : 1''))"
  let ?m2 = "the (re_search True re_semester (strip ''Semester : 2''))"
  let ?b1 = "\<lparr>summary = [(''Semester'', ''1''), (''Even/Odd'', []), (''Total Marks Obt.'', []),
                      (''Result Status'', []), (''SGPA'', ''8.5'')],
         header = [''Code'', ''Name'', ''Type'', ''Internal'', ''External'', ''Back Paper'', ''Grade''],
         rows = [[''CSE101'', ''Data'', ''Theory'', ''40'', ''50'', ''--'', ''A'']]\<rparr>"
  let ?b2 = "\<lparr>summary = [(''Semester'', ''2''), (''Even/Odd'', []), (''Total Marks Obt.'', []),
                      (''Result Status'', []), (''SGPA'', [])],
         header = [''Code'', ''Name'', ''Type'', ''Internal'', ''External'', ''Back Paper'', ''Grade''],
         rows = [[''CSE201'', ''Algo'', ''Lab'', ''30'', ''--'', ''--'', ''A'']]\<rparr>"
  have "re_search True re_semester (strip ''Semester : 1'') \<noteq> None" by code_simp
  then have s1: "re_search True re_semester (strip ''Semester : 1'') = Some ?m1" by simp
  have "re_search True re_semester (strip ''Semester : 2'') \<noteq> None" by code_simp
  then have s2: "re_search True re_semester (strip ''Semester : 2'') = Some ?m2" by simp
  have ms1: "\<forall>l \<in> set [''SGPA : 8.5'']. \<not> is_header (strip l) \<and> re_search True re_semester (strip l) = None"
    by code_simp
  have ms2: "\<forall>l \<in> set ([] :: string list). \<not> is_header (strip l) \<and> re_search True re_semester (strip l) = None"
    by simp
  have h: "is_header (strip ?h)" by code_simp
  have rs1: "\<forall>l \<in> set [''CSE101 Data Theory 40 50 -- A'']. \<not> is_stop (strip l)" by code_simp
  have rs2: "\<forall>l \<in> set [''CSE201 Algo Lab 30 A'']. \<not> is_stop (strip l)" by code_simp
  have st: "is_stop (strip ''Major Result'')" by code_simp
  have pr: "\<forall>l \<in> set [''CSE101 Data Theory 40 50 -- A'']. \<not> is_header (strip l)
      \<and> parse_row_to_columns (strip l) \<noteq> None" by code_simp
  have e1: "emitted (block_summary ?m1 [''SGPA : 8.5''])
      [[''CSE101'', ''Data'', ''Theory'', ''40'', ''50'', ''--'', ''A'']] = [?b1]"
    by code_simp
  have e2: "emitted (block_summary ?m2 []) (block_rows [''CSE201 Algo Lab 30 A'']) = [?b2]"
    by code_simp
  have v: "map (\<lambda>l. the (parse_row_to_columns (strip l))) [''CSE101 Data Theory 40 50 -- A''] =
      [[''CSE101'', ''Data'', ''Theory'', ''40'', ''50'', ''--'', ''A'']]"
    by code_simp
  have g: "page_loop [''Major Result'', ''CSE999 Ghost Theory 1''] [?b1] = Inr [?b1]"
    by code_simp
  note T = stop_line_reevaluated [OF s1 ms1 h rs1 s2 ms2 h rs2, of "[]"]
  from T pr have r: "block_rows [''CSE101 Data Theory 40 50 -- A''] =
      [[''CSE101'', ''Data'', ''Theory'', ''40'', ''50'', ''--'', ''A'']]"
    unfolding v by blast
  from T have "page_loop ((''Semester : 1'' # [''SGPA : 8.5''] @ ?h # [''CSE101 Data Theory 40 50 -- A''])
          @ (''Semester : 2'' # [] @ ?h # [''CSE201 Algo Lab 30 A''])) [] =
      Inr ([] @ emitted (block_summary ?m1 [''SGPA : 8.5'']) (block_rows [''CSE101 Data Theory 40 50 -- A''])
              @ emitted (block_summary ?m2 []) (block_rows [''CSE201 Algo Lab 30 A'']))"
    by blast
  then have a: "page_loop ([''Semester : 1'', ''SGPA : 8.5'', ?h, ''CSE101 Data Theory 40 50 -- A'']
              @ [''Semester : 2'', ?h, ''CSE201 Algo Lab 30 A'']) [] = Inr [?b1, ?b2]"
    unfolding r e1 e2 append.simps .
  from T st have "page_loop (''Semester : 1'' # [''SGPA : 8.5''] @ ?h # [''CSE101 Data Theory 40 50 -- A'']
          @ ''Major Result'' # [''CSE999 Ghost Theory 1'']) [] =
      page_loop (''Major Result'' # [''CSE999 Ghost Theory 1''])
        ([] @ emitted (block_summary ?m1 [''SGPA : 8.5'']) (block_rows [''CSE101 Data Theory 40 50 -- A'']))"
    by blast
  then have b: "page_loop [''Semester : 1'', ''SGPA : 8.5'', ?h, ''CSE101 Data Theory 40 50 -- A'',
      ''Major Result'', ''CSE999 Ghost Theory 1''] [] = Inr [?b1]"
    unfolding r e1 append.simps g .
  from a b r show ?thesis by blast
qed

section \<open>Summary fields: which line decides\<close>

lemma dict_get_set_if:
  "dict_get (set_if m key f s) k =
     (case m of None \<Rightarrow> dict_get s k
      | Some g \<Rightarrow> if k = key then Some (f (group g 1)) else dict_get s k)"
  by (cases m) (simp_all add: set_if_def dict_get_set)

lemma capture_summary_fields:
  "dict_get (capture_summary s l) ''Even/Odd'' =
     (case re_search True re_even_odd l of None \<Rightarrow> dict_get s ''Even/Odd''
      | Some m \<Rightarrow> Some (group m 1))"
  "dict_get (capture_summary s l) ''Total Marks Obt.'' =
     (case re_search True re_total_marks l of None \<Rightarrow> dict_get s ''Total Marks Obt.''
      | Some m \<Rightarrow> Some (group m 1))"
  "dict_get (capture_summary s l) ''Result Status'' =
     (case re_search True re_result_status l of None \<Rightarrow> dict_get s ''Result Status''
      | Some m \<Rightarrow> Some (strip (group m 1)))"
  "dict_get (capture_summary s l) ''SGPA'' =
     (case re_search True re_sgpa l of None \<Rightarrow> dict_get s ''SGPA''
      | Some m \<Rightarrow> Some (group m 1))"
  unfolding capture_summary_def dict_get_set_if
  by (simp_all split: option.splits)

text \<open>
  Claim C2, as stated, fails: the assignments of the summary fields are unconditional.
  Here the first "SGPA :" line gives 8.25 and the block is emitted with the 9.00 of the
  second.
\<close>

theorem first_match_overwritten:
  "map_option (\<lambda>m. group m 1) (re_search True re_sgpa (strip ''SGPA : 8.25'')) = Some ''8.25''
   \<and> map_sum id snd (extract_marksheet_blocks
      [Some ''Semester : 1\<newline>SGPA : 8.25\<newline>SGPA : 9.00\<newline>Code Name Type Internal External Back Paper Grade\<newline>CSE101 Data Theory 40'']) =
   Inr [\<lparr>summary = [(''Semester'', ''1''), (''Even/Odd'', []), (''Total Marks Obt.'', []),
                      (''Result Status'', []), (''SGPA'', ''9.00'')],
         header = [''Code'', ''Name'', ''Type'', ''Internal'', ''External'', ''Back Paper'', ''Grade''],
         rows = [[''CSE101'', ''Data'', ''Theory'', ''40'', ''--'', ''--'', ''--'']]\<rparr>]"
proof -
  let ?pdf = "[Some ''Semester : 1\<newline>SGPA : 8.25\<newline>SGPA : 9.00\<newline>Code Name Type Internal External Back Paper Grade\<newline>CSE101 Data Theory 40'']"
  let ?bl = "[\<lparr>summary = [(''Semester'', ''1''), (''Even/Odd'', []), (''Total Marks Obt.'', []),
                      (''Result Status'', []), (''SGPA'', ''9.00'')],
         header = [''Code'', ''Name'', ''Type'', ''Internal'', ''External'', ''Back Paper'', ''Grade''],
         rows = [[''CSE101'', ''Data'', ''Theory'', ''40'', ''--'', ''--'', ''--'']]\<rparr>]"
  have m: "map_option (\<lambda>m. group m 1) (re_search True re_sgpa (strip ''SGPA : 8.25'')) = Some ''8.25''"
    by code_simp
  have p: "pages_loop (map page_lines ?pdf) [] = Inr ?bl"
    by code_simp
  have "extract_marksheet_blocks ?pdf = Inr (general_info_of (concat (map page_lines ?pdf)), ?bl)"
    unfolding extract_marksheet_blocks_def Let_def p by simp
  with m show ?thesis by simp
qed

text \<open>
  Claim C2, amended. Every line of the summary part that is neither the table header nor
  a "Semester :" line is passed to the four patterns, and each field whose pattern matches
  the line takes the captured value whatever was recorded before; a field whose pattern
  does not match keeps its value. So the last matching line before the header decides.
\<close>

theorem later_match_overwrites:
  assumes "\<not> is_header (strip x)" and "re_search True re_semester (strip x) = None"
  shows "summary_loop (Some s) (x # xs) bl = summary_loop (Some (capture_summary s (strip x))) xs bl
    \<and> dict_get (capture_summary s (strip x)) ''Even/Odd'' =
        (case re_search True re_even_odd (strip x) of None \<Rightarrow> dict_get s ''Even/Odd''
         | Some m \<Rightarrow> Some (group m 1))
    \<and> dict_get (capture_summary s (strip x)) ''Total Marks Obt.'' =
        (case re_search True re_total_marks (strip x) of None \<Rightarrow> dict_get s ''Total Marks Obt.''
         | Some m \<Rightarrow> Some (group m 1))
    \<and> dict_get (capture_summary s (strip x)) ''Result Status'' =
        (case re_search True re_result_status (strip x) of None \<Rightarrow> dict_get s ''Result Status''
         | Some m \<Rightarrow> Some (strip (group m 1)))
    \<and> dict_get (capture_summary s (strip x)) ''SGPA'' =
        (case re_search True re_sgpa (strip x) of None \<Rightarrow> dict_get s ''SGPA''
         | Some m \<Rightarrow> Some (group m 1))"
  using assms capture_summary_fields [of s "strip x"] by (simp add: Let_def)

theorem later_match_overwrites_witness:
  "dict_get (capture_summary [(''Semester'', ''1''), (''Even/Odd'', []), (''Total Marks Obt.'', []),
        (''Result Status'', []), (''SGPA'', ''8.25'')] (strip ''SGPA : 9.00'')) ''SGPA'' = Some ''9.00''"
proof -
  have h: "\<not> is_header (strip ''SGPA : 9.00'')" by code_simp
  have n: "re_search True re_semester (strip ''SGPA : 9.00'') = None" by code_simp
  have g: "map_option (\<lambda>m. group m 1) (re_search True re_sgpa (strip ''SGPA : 9.00'')) = Some ''9.00''"
    by code_simp
  from later_match_overwrites [OF h n, of "[(''Semester'', ''1''), (''Even/Odd'', []), (''Total Marks Obt.'', []),
        (''Result Status'', []), (''SGPA'', ''8.25'')]" "[]" "[]"]
  have "dict_get (capture_summary [(''Semester'', ''1''), (''Even/Odd'', []), (''Total Marks Obt.'', []),
        (''Result Status'', []), (''SGPA'', ''8.25'')] (strip ''SGPA : 9.00'')) ''SGPA'' =
        (case re_search True re_sgpa (strip ''SGPA : 9.00'') of
           None \<Rightarrow> dict_get [(''Semester'', ''1''), (''Even/Odd'', []), (''Total Marks Obt.'', []),
        (''Result Status'', []), (''SGPA'', ''8.25'')] ''SGPA''
         | Some m \<Rightarrow> Some (group m 1))"
    by blast
  with g show ?thesis by (cases "re_search True re_sgpa (strip ''SGPA : 9.00'')") simp_all
qed

section \<open>A subject name wrapped over two lines\<close>

text \<open>
  Claim C5, as stated, fails: the buffered line and its continuation are joined with a
  space, so the name is "Data Struct ures", not "Data Structures".
\<close>

theorem wrapped_name_not_glued:
  "row_loop [''CSE101 Data Struct'', ''ures Theory 40 50 -- A''] [] [] \<noteq>
     ([], [[''CSE101'', ''Data Structures'', ''Theory'', ''40'', ''50'', ''--'', ''A'']], [])"
proof -
  have "row_loop [''CSE101 Data Struct'', ''ures Theory 40 50 -- A''] [] [] =
     ([], [[''CSE101'', ''Data Struct ures'', ''Theory'', ''40'', ''50'', ''--'', ''A'']], [])"
    by code_simp
  then show ?thesis by simp
qed

text \<open>
  Claim C5, amended. Two consecutive lines of the row window, the first of which is not
  a row by itself, give exactly one row when the first line, a single space and the second
  line together match the row pattern; for the two lines of the claim the row is
  CSE101, "Data Struct ures", Theory, 40, 50, --, A.
\<close>

theorem wrapped_name_joined_with_space:
  assumes "\<not> is_stop (strip l1)" and "\<not> is_stop (strip l2)"
    and "\<not> is_header (strip l1)" and "\<not> is_header (strip l2)"
    and "strip l1 \<noteq> []" and "strip l2 \<noteq> []"
    and "parse_row_to_columns (strip l1) = None"
    and "parse_row_to_columns (strip (strip l1 @ '' '' @ strip l2)) = Some row"
  shows "row_loop [l1, l2] [] [] = ([], [row], [])"
  using assms by (simp add: row_line_def joined_def)

theorem wrapped_name_joined_with_space_witness:
  "row_loop [''CSE101 Data Struct'', ''ures Theory 40 50 -- A''] [] [] =
     ([], [[''CSE101'', ''Data Struct ures'', ''Theory'', ''40'', ''50'', ''--'', ''A'']], [])"
proof -
  have a: "\<not> is_stop (strip ''CSE101 Data Struct'')" "\<not> is_stop (strip ''ures Theory 40 50 -- A'')"
    "\<not> is_header (strip ''CSE101 Data Struct'')" "\<not> is_header (strip ''ures Theory 40 50 -- A'')"
    "strip ''CSE101 Data Struct'' \<noteq> []" "strip ''ures Theory 40 50 -- A'' \<noteq> []"
    "parse_row_to_columns (strip ''CSE101 Data Struct'') = None"
    by code_simp+
  have b: "parse_row_to_columns (strip (strip ''CSE101 Data Struct'' @ '' '' @ strip ''ures Theory 40 50 -- A''))
      = Some [''CSE101'', ''Data Struct ures'', ''Theory'', ''40'', ''50'', ''--'', ''A'']"
    by code_simp
  from wrapped_name_joined_with_space [OF a b] show ?thesis .
qed

section \<open>The shape of a row\<close>

text \<open>Code points of the case mappings.\<close>

lemma cp_inj: "cp c = cp d \<Longrightarrow> c = d"
  by (simp add: cp_def)

lemma cp_lower_char:
  "cp (lower_char c) =
     (if (65 \<le> cp c \<and> cp c \<le> 90) \<or> (192 \<le> cp c \<and> cp c \<le> 222 \<and> cp c \<noteq> 215)
      then cp c + 32 else cp c)"
  by (simp add: lower_char_def Let_def cp_def)

lemma cp_upper_char:
  "cp (upper_char c) =
     (if (97 \<le> cp c \<and> cp c \<le> 122) \<or> (224 \<le> cp c \<and> cp c \<le> 254 \<and> cp c \<noteq> 247)
      then cp c - 32 else cp c)"
  by (auto simp: upper_char_def Let_def cp_def)

lemma upper_lower: "upper_char (lower_char c) = upper_char c"
proof (rule cp_inj)
  consider "65 \<le> cp c \<and> cp c \<le> 90" | "192 \<le> cp c \<and> cp c \<le> 222 \<and> cp c \<noteq> 215"
    | "\<not> (65 \<le> cp c \<and> cp c \<le> 90) \<and> \<not> (192 \<le> cp c \<and> cp c \<le> 222 \<and> cp c \<noteq> 215)"
    by blast
  then show "cp (upper_char (lower_char c)) = cp (upper_char c)"
  proof cases
    case 1
    then show ?thesis by (simp add: cp_upper_char cp_lower_char)
  next
    case 2
    then show ?thesis by (simp add: cp_upper_char cp_lower_char)
  next
    case 3
    then show ?thesis by (simp add: cp_upper_char cp_lower_char)
  qed
qed

lemma range_AZ_alpha:
  assumes "cset_mem True (Range CHR ''A'' CHR ''Z'') c"
  shows "is_alpha_ascii c"
proof -
  have a: "cp CHR ''A'' = 65" "cp CHR ''Z'' = 90" by (simp_all add: cp_def)
  from assms consider "65 \<le> cp c \<and> cp c \<le> 90"
    | "65 \<le> cp (lower_char c) \<and> cp (lower_char c) \<le> 90"
    | "65 \<le> cp (upper_char c) \<and> cp (upper_char c) \<le> 90"
    unfolding cset_mem.simps a by blast
  then show ?thesis
  proof cases
    case 1
    then show ?thesis by (simp add: is_alpha_ascii_def is_upper_ascii_def Let_def)
  next
    case 2
    then show ?thesis
      by (simp add: cp_lower_char is_alpha_ascii_def is_upper_ascii_def Let_def split: if_splits)
  next
    case 3
    then show ?thesis
      by (simp add: cp_upper_char is_alpha_ascii_def is_upper_ascii_def is_lower_ascii_def Let_def
          split: if_splits) arith
  qed
qed

definition code_shape :: "string \<Rightarrow> bool" where
  "code_shape c = (length c = 6 \<and> list_all is_alpha_ascii (take 3 c) \<and> list_all is_digit (drop 3 c))"

definition type_shape :: "string \<Rightarrow> bool" where
  "type_shape t = (t \<in> set [''Theory'', ''Practical'', ''Lab'', ''Project'', ''Workshop'', ''Training'']
     \<or> lower t = ''ca'')"

definition row_shape :: "string list \<Rightarrow> bool" where
  "row_shape r = (length r = 7 \<and> code_shape (r ! 0) \<and> type_shape (r ! 2))"

lemma glang_word: "glang (word u) ci n = {}"
proof (induction u)
  case Nil
  show ?case by (simp add: word_def)
next
  case (Cons p ps)
  then show ?case by (cases ps) (simp_all add: word_def)
qed

lemma glang_type_words: "glang type_words ci n = {}"
  by (simp add: type_words_def glang_word)

lemma word_capitalize:
  assumes "w \<in> lang (word u) True" and "u \<noteq> []"
  shows "capitalize w = capitalize u"
proof -
  from lang_word [OF assms] have l: "list_all2 (chr_eq True) u w" .
  from assms(2) obtain p ps where u: "u = p # ps" by (cases u) auto
  with l obtain c cs where w: "w = c # cs" and pc: "chr_eq True p c"
    and r: "list_all2 (chr_eq True) ps cs"
    by (cases w) auto
  from r have "map lower_char cs = map lower_char ps"
    by (induction rule: list_all2_induct) (auto dest: chr_eq_lower)
  moreover from pc have "upper_char c = upper_char p"
    using upper_lower [of c] upper_lower [of p] by (simp add: chr_eq_lower)
  ultimately show ?thesis by (simp add: u w)
qed

lemma type_words_capitalize:
  assumes "t \<in> lang type_words True"
  shows "type_shape (capitalize t)"
proof -
  from assms consider "t \<in> lang (word ''Theory'') True" | "t \<in> lang (word ''Practical'') True"
    | "t \<in> lang (word ''CA'') True" | "t \<in> lang (word ''Lab'') True"
    | "t \<in> lang (word ''Project'') True" | "t \<in> lang (word ''Workshop'') True"
    | "t \<in> lang (word ''Training'') True"
    unfolding type_words_def lang.simps by blast
  then show ?thesis
  proof cases
    case 1
    have "capitalize ''Theory'' = ''Theory''" by code_simp
    with word_capitalize [OF 1] show ?thesis by (simp add: type_shape_def)
  next
    case 2
    have "capitalize ''Practical'' = ''Practical''" by code_simp
    with word_capitalize [OF 2] show ?thesis by (simp add: type_shape_def)
  next
    case 3
    have "lower (capitalize ''CA'') = ''ca''" by code_simp
    with word_capitalize [OF 3] show ?thesis by (simp add: type_shape_def)
  next
    case 4
    have "capitalize ''Lab'' = ''Lab''" by code_simp
    with word_capitalize [OF 4] show ?thesis by (simp add: type_shape_def)
  next
    case 5
    have "capitalize ''Project'' = ''Project''" by code_simp
    with word_capitalize [OF 5] show ?thesis by (simp add: type_shape_def)
  next
    case 6
    have "capitalize ''Workshop'' = ''Workshop''" by code_simp
    with word_capitalize [OF 6] show ?thesis by (simp add: type_shape_def)
  next
    case 7
    have "capitalize ''Training'' = ''Training''" by code_simp
    with word_capitalize [OF 7] show ?thesis by (simp add: type_shape_def)
  qed
qed

lemma code_lang_shape:
  assumes "c \<in> lang (Seq (Rep 3 3 (Range CHR ''A'' CHR ''Z'')) (Rep 3 3 Digit)) True"
  shows "code_shape c"
proof -
  from assms obtain x y where c: "c = x @ y" and x: "length x = 3"
    "\<forall>ch \<in> set x. cset_mem True (Range CHR ''A'' CHR ''Z'') ch"
    and y: "length y = 3" "\<forall>ch \<in> set y. is_digit ch"
    by auto
  from x(2) have "\<forall>ch \<in> set x. is_alpha_ascii ch" by (blast intro: range_AZ_alpha)
  with c x(1) y show ?thesis by (simp add: code_shape_def list_all_iff)
qed

lemma parse_row_shape:
  assumes "parse_row_to_columns raw = Some r"
  shows "row_shape r"
proof -
  from assms obtain m where
    m: "re_match True row_pattern (sub_ws (strip raw)) = Some m" and
    r: "r = [group m 1, strip (group m 2), capitalize (group m 3), group m 4,
             or_dashes (snd m 5), or_dashes (snd m 6), or_dashes (snd m 7)]"
    by (auto simp: parse_row_to_columns_def Let_def split: option.splits)
  have s1: "sets_group row_pattern 1" and s3: "sets_group row_pattern 3"
    by (simp_all add: row_pattern_def)
  from re_match_group(2) [OF m s1] obtain c where c: "snd m 1 = Some c" by auto
  from re_match_group(2) [OF m s3] obtain t where t: "snd m 3 = Some t" by auto
  from re_match_group(1) [OF m c]
  have "c \<in> lang (Seq (Rep 3 3 (Range CHR ''A'' CHR ''Z'')) (Rep 3 3 Digit)) True"
    by (simp add: row_pattern_def glang_word glang_type_words)
  then have "code_shape c" by (rule code_lang_shape)
  moreover from re_match_group(1) [OF m t] have "t \<in> lang type_words True"
    by (simp add: row_pattern_def glang_word glang_type_words)
  then have "type_shape (capitalize t)" by (rule type_words_capitalize)
  ultimately show ?thesis using c t by (simp add: r row_shape_def group_def)
qed




section \<open>Parsing a row again\<close>

subsection \<open>The text the row parser matches\<close>

text \<open>The text \<^verbatim>\<open>re.sub(r"\s+", " ", raw.strip())\<close> has single spaces only, and none at
  its ends.\<close>

fun single_spaced :: "string \<Rightarrow> bool" where
  "single_spaced [] = True"
| "single_spaced [c] = True"
| "single_spaced (c # d # cs) = (\<not> (is_space c \<and> is_space d) \<and> single_spaced (d # cs))"

definition normal :: "string \<Rightarrow> bool" where
  "normal s = ((\<forall>c \<in> set s. is_space c \<longrightarrow> c = CHR '' '') \<and> single_spaced s
     \<and> (s \<noteq> [] \<longrightarrow> \<not> is_space (hd s) \<and> \<not> is_space (last s)))"

lemma is_space_sp: "is_space CHR '' ''"
  by (simp add: is_space_def cp_def)

lemma sub_ws_chars: "c \<in> set (sub_ws s) \<Longrightarrow> is_space c \<Longrightarrow> c = CHR '' ''"
  by (induction s rule: sub_ws.induct) (auto split: if_splits)

lemma sub_ws_hd: "s \<noteq> [] \<Longrightarrow> sub_ws s \<noteq> [] \<and> (is_space (hd (sub_ws s)) \<longleftrightarrow> is_space (hd s))"
  by (induction s rule: sub_ws.induct) (auto simp: is_space_sp)

lemma sub_ws_single: "single_spaced (sub_ws s)"
proof (induction s rule: sub_ws.induct)
  case 1
  show ?case by simp
next
  case (2 c)
  show ?case by simp
next
  case (3 c d cs)
  have h: "sub_ws (d # cs) \<noteq> [] \<and> (is_space (hd (sub_ws (d # cs))) \<longleftrightarrow> is_space d)"
    using sub_ws_hd [of "d # cs"] by simp
  then obtain e es where e: "sub_ws (d # cs) = e # es" by (cases "sub_ws (d # cs)") auto
  with h have ed: "is_space e \<longleftrightarrow> is_space d" by simp
  show ?case
  proof (cases "is_space c")
    case True
    with 3 e ed show ?thesis by (cases "is_space d") auto
  next
    case False
    with 3 e show ?thesis by auto
  qed
qed

lemma sub_ws_last: "s \<noteq> [] \<Longrightarrow> \<not> is_space (last s) \<Longrightarrow> \<not> is_space (last (sub_ws s))"
proof (induction s rule: sub_ws.induct)
  case 1
  then show ?case by simp
next
  case (2 c)
  then show ?case by simp
next
  case (3 c d cs)
  from sub_ws_hd [of "d # cs"] have "sub_ws (d # cs) \<noteq> []" by simp
  with 3 show ?case by auto
qed

lemma lstrip_hd: "lstrip s \<noteq> [] \<Longrightarrow> \<not> is_space (hd (lstrip s))"
  unfolding lstrip_def by (metis hd_dropWhile)

lemma rstrip_last: "rstrip s \<noteq> [] \<Longrightarrow> \<not> is_space (last (rstrip s))"
  unfolding rstrip_def by (metis hd_dropWhile last_rev rev_is_Nil_conv)

lemma rstrip_hd: "rstrip s \<noteq> [] \<Longrightarrow> hd (rstrip s) = hd s"
proof -
  assume a: "rstrip s \<noteq> []"
  have "s = rstrip s @ rev (takeWhile is_space (rev s))"
    unfolding rstrip_def by (metis rev_append rev_rev_ident takeWhile_dropWhile_id)
  with a show ?thesis by (metis hd_append2)
qed

lemma strip_ends: "strip s \<noteq> [] \<Longrightarrow> \<not> is_space (hd (strip s)) \<and> \<not> is_space (last (strip s))"
  unfolding strip_def
  by (metis rstrip_last rstrip_hd lstrip_hd rstrip_def rev.simps(1) dropWhile.simps(1))

lemma normal_sub_ws_strip: "normal (sub_ws (strip raw))"
proof (cases "strip raw = []")
  case True
  then show ?thesis by (simp add: normal_def)
next
  case False
  from strip_ends [OF False] sub_ws_hd [OF False] sub_ws_last [OF False]
  show ?thesis by (auto simp: normal_def sub_ws_single dest: sub_ws_chars)
qed

lemma sub_ws_id: "single_spaced s \<Longrightarrow> \<forall>c \<in> set s. is_space c \<longrightarrow> c = CHR '' '' \<Longrightarrow>
    s = [] \<or> \<not> is_space (last s) \<Longrightarrow> sub_ws s = s"
  by (induction s rule: sub_ws.induct) (auto split: if_splits)

lemma strip_id: "s = [] \<or> (\<not> is_space (hd s) \<and> \<not> is_space (last s)) \<Longrightarrow> strip s = s"
proof (cases s)
  case Nil
  then show ?thesis by (simp add: strip_def lstrip_def rstrip_def)
next
  case (Cons c cs)
  assume "s = [] \<or> (\<not> is_space (hd s) \<and> \<not> is_space (last s))"
  with Cons have h: "\<not> is_space c" and l: "\<not> is_space (last s)" by auto
  from h Cons have "lstrip s = s" by (simp add: lstrip_def)
  moreover have "hd (rev s) = last s" using Cons by (simp only: hd_rev)
  with l have "dropWhile is_space (rev s) = rev s"
    by (simp only: dropWhile_eq_self_iff) simp
  then have "rstrip s = s" by (simp add: rstrip_def)
  ultimately show ?thesis by (simp add: strip_def)
qed

lemma normal_fixed: "normal s \<Longrightarrow> sub_ws (strip s) = s"
proof -
  assume n: "normal s"
  then have "strip s = s" by (intro strip_id) (auto simp: normal_def)
  moreover from n have "sub_ws s = s" by (intro sub_ws_id) (auto simp: normal_def)
  ultimately show ?thesis by simp
qed

subsection \<open>The first match of a pattern\<close>

text \<open>\<open>starts xs x\<close>: the list of matches \<open>xs\<close> begins with \<open>x\<close>, the match Python takes.\<close>

lemma chr_eq_cp: "chr_eq ci p c = (c = p \<or> (ci \<and> cp (lower_char c) = cp (lower_char p)))"
  by (auto simp: chr_eq_def dest: cp_inj)

definition starts :: "'a list \<Rightarrow> 'a \<Rightarrow> bool" where
  "starts xs x = (case xs of [] \<Rightarrow> False | y # _ \<Rightarrow> y = x)"

lemma starts_Cons [simp]: "starts (y # ys) x \<longleftrightarrow> y = x"
  by (simp add: starts_def)

lemma starts_Nil [simp]: "\<not> starts [] x"
  by (simp add: starts_def)

lemma starts_append: "starts xs x \<Longrightarrow> starts (xs @ ys) x"
  by (cases xs) simp_all

lemma starts_append2: "xs = [] \<Longrightarrow> starts ys x \<Longrightarrow> starts (xs @ ys) x"
  by simp

lemma starts_map: "starts xs x \<Longrightarrow> starts (map f xs) (f x)"
  by (cases xs) auto

lemma starts_seq:
  assumes "starts (rxm a ci prev s g) (m1, s1, g1)"
    and "starts (rxm b ci (prev_after prev m1) s1 g1) (m2, s2, g2)"
  shows "starts (rxm (Seq a b) ci prev s g) (m1 @ m2, s2, g2)"
proof -
  from assms(1) obtain ra where ra: "rxm a ci prev s g = (m1, s1, g1) # ra"
    by (cases "rxm a ci prev s g") auto
  from assms(2) obtain rb where rb: "rxm b ci (prev_after prev m1) s1 g1 = (m2, s2, g2) # rb"
    by (cases "rxm b ci (prev_after prev m1) s1 g1") auto
  show ?thesis by (simp add: ra rb)
qed

lemma starts_grp:
  "starts (rxm a ci prev s g) (m, s', g') \<Longrightarrow> starts (rxm (Grp n a) ci prev s g) (m, s', g'(n \<mapsto> m))"
  by (cases "rxm a ci prev s g") auto

lemma starts_opt: "starts (rxm a ci prev s g) x \<Longrightarrow> starts (rxm (Opt a) ci prev s g) x"
  by (simp add: starts_append)

lemma starts_alt1: "starts (rxm a ci prev s g) x \<Longrightarrow> starts (rxm (Alt a b) ci prev s g) x"
  by (simp add: starts_append)

lemma starts_alt2:
  "rxm a ci prev s g = [] \<Longrightarrow> starts (rxm b ci prev s g) x \<Longrightarrow> starts (rxm (Alt a b) ci prev s g) x"
  by simp

lemma star_splits_first:
  "\<forall>c \<in> set xs. p c \<Longrightarrow> rest = [] \<or> \<not> p (hd rest) \<Longrightarrow> starts (star_splits p (xs @ rest)) (xs, rest)"
proof (induction xs)
  case Nil
  then show ?case by (cases rest) auto
next
  case (Cons x xs)
  then have "starts (star_splits p (xs @ rest)) (xs, rest)" by simp
  then have "starts (map (\<lambda>(m, r). (x # m, r)) (star_splits p (xs @ rest))) (x # xs, rest)"
    by (cases "star_splits p (xs @ rest)") auto
  with Cons.prems show ?case by (simp add: starts_append)
qed

lemma starts_plus:
  assumes "xs \<noteq> []" and "\<forall>c \<in> set xs. cset_mem ci k c" and "rest = [] \<or> \<not> cset_mem ci k (hd rest)"
  shows "starts (rxm (Plus k) ci prev (xs @ rest) g) (xs, rest, g)"
proof -
  from assms(1) obtain y ys where xs: "xs = y # ys" by (cases xs) auto
  with assms have "starts (star_splits (cset_mem ci k) (ys @ rest)) (ys, rest)"
    by (intro star_splits_first) auto
  then obtain l where "star_splits (cset_mem ci k) (ys @ rest) = (ys, rest) # l"
    by (cases "star_splits (cset_mem ci k) (ys @ rest)") auto
  with assms(2) xs show ?thesis by (simp add: one_then_def)
qed

lemma starts_star:
  assumes "\<forall>c \<in> set xs. cset_mem ci k c" and "rest = [] \<or> \<not> cset_mem ci k (hd rest)"
  shows "starts (rxm (Star k) ci prev (xs @ rest) g) (xs, rest, g)"
proof -
  from assms have "starts (star_splits (cset_mem ci k) (xs @ rest)) (xs, rest)"
    by (intro star_splits_first) auto
  then show ?thesis by (cases "star_splits (cset_mem ci k) (xs @ rest)") auto
qed

lemma rep_splits_first:
  "\<forall>c \<in> set xs. p c \<Longrightarrow> lo \<le> length xs \<Longrightarrow> length xs \<le> hi \<Longrightarrow>
   length xs = hi \<or> rest = [] \<or> \<not> p (hd rest) \<Longrightarrow>
   starts (rep_splits p lo hi (xs @ rest)) (xs, rest)"
proof (induction xs arbitrary: lo hi)
  case Nil
  then show ?case by (cases rest) auto
next
  case (Cons x xs)
  from Cons.prems have "starts (rep_splits p (lo - 1) (hi - 1) (xs @ rest)) (xs, rest)"
    by (intro Cons.IH) auto
  then have "starts (map (\<lambda>(m, r). (x # m, r)) (rep_splits p (lo - 1) (hi - 1) (xs @ rest))) (x # xs, rest)"
    by (cases "rep_splits p (lo - 1) (hi - 1) (xs @ rest)") auto
  with Cons.prems show ?case by (simp add: starts_append)
qed

lemma starts_rep:
  assumes "\<forall>c \<in> set xs. cset_mem ci k c" and "lo \<le> length xs" and "length xs \<le> hi"
    and "length xs = hi \<or> rest = [] \<or> \<not> cset_mem ci k (hd rest)"
  shows "starts (rxm (Rep lo hi k) ci prev (xs @ rest) g) (xs, rest, g)"
proof -
  from assms have "starts (rep_splits (cset_mem ci k) lo hi (xs @ rest)) (xs, rest)"
    by (intro rep_splits_first) auto
  then show ?thesis by (cases "rep_splits (cset_mem ci k) lo hi (xs @ rest)") auto
qed

text \<open>The lazy name: the candidates are tried from the shortest on.\<close>

lemma lazy_candidates:
  assumes "\<forall>c \<in> set n2. p c"
    and "\<And>a b. n2 = a @ b \<Longrightarrow> b \<noteq> [] \<Longrightarrow> f (prev_after prev (acc @ a)) (b @ tail) (h (acc @ a)) = []"
  shows "seq_results f prev (map (\<lambda>(m, r). (acc @ m, r, h (acc @ m))) (lazy_splits p (n2 @ tail)))
       = seq_results f prev (map (\<lambda>(m, r). ((acc @ n2) @ m, r, h ((acc @ n2) @ m))) (lazy_splits p tail))"
  using assms
proof (induction n2 arbitrary: acc)
  case Nil
  show ?case by simp
next
  case (Cons y ys)
  have first: "f (prev_after prev acc) (y # ys @ tail) (h acc) = []"
    using Cons.prems(2) [of "[]" "y # ys"] by simp
  have "seq_results f prev (map (\<lambda>(m, r). ((acc @ [y]) @ m, r, h ((acc @ [y]) @ m))) (lazy_splits p (ys @ tail)))
      = seq_results f prev (map (\<lambda>(m, r). (((acc @ [y]) @ ys) @ m, r, h (((acc @ [y]) @ ys) @ m))) (lazy_splits p tail))"
  proof (rule Cons.IH)
    show "\<forall>c \<in> set ys. p c" using Cons.prems(1) by simp
  next
    fix a b assume "ys = a @ b" "b \<noteq> []"
    with Cons.prems(2) [of "y # a" b]
    show "f (prev_after prev ((acc @ [y]) @ a)) (b @ tail) (h ((acc @ [y]) @ a)) = []" by simp
  qed
  with Cons.prems(1) first show ?case
    by (simp add: comp_def case_prod_unfold)
qed

subsection \<open>The columns after the name\<close>

definition row_tail :: rx where
  "row_tail = seqs [Plus Space,
     Grp 3 type_words,
     Plus Space,
     Grp 4 (Plus Digit),
     Opt (Seq (Plus Space) (Grp 5 (Alt (Plus Digit) (word ''--'')))),
     Opt (Seq (Plus Space) (Grp 6 (Alt (word ''--'') (Plus Digit)))),
     Opt (Seq (Plus Space) (Grp 7 (Seq
        (Rep 1 2 (Union (Range CHR ''A'' CHR ''Z'') (Range CHR ''a'' CHR ''z'')))
        (Opt (Lit CHR ''+''))))),
     Star Space, Eol]"

lemma row_pattern_split:
  "row_pattern = Seq Bol (Seq (Star Space)
     (Seq (Grp 1 (Seq (Rep 3 3 (Range CHR ''A'' CHR ''Z'')) (Rep 3 3 Digit)))
       (Seq (Plus Space) (Seq (Grp 2 (LazyPlus Dot)) row_tail))))"
  by (simp add: row_pattern_def row_tail_def)

definition type_names :: "string list" where
  "type_names = [''Theory'', ''Practical'', ''Ca'', ''Lab'', ''Project'', ''Workshop'', ''Training'']"

definition num_or_dashes :: "string \<Rightarrow> bool" where
  "num_or_dashes e = (digit_string e \<or> e = ''--'')"

definition grade_token :: "string \<Rightarrow> bool" where
  "grade_token gr = (\<exists>ls pl. gr = ls @ pl \<and> 1 \<le> length ls \<and> length ls \<le> 2
     \<and> (\<forall>c \<in> set ls. is_alpha_ascii c) \<and> (pl = [] \<or> pl = ''+''))"

lemma alpha_range_AZ: "cset_mem True (Range CHR ''A'' CHR ''Z'') c \<longleftrightarrow> is_alpha_ascii c"
proof
  assume "cset_mem True (Range CHR ''A'' CHR ''Z'') c"
  then show "is_alpha_ascii c" by (rule range_AZ_alpha)
next
  assume "is_alpha_ascii c"
  then show "cset_mem True (Range CHR ''A'' CHR ''Z'') c"
    by (auto simp: is_alpha_ascii_def is_upper_ascii_def is_lower_ascii_def Let_def cp_upper_char
        cp_def [of "CHR ''A''"] cp_def [of "CHR ''Z''"])
qed

lemma alpha_letters:
  "cset_mem True (Union (Range CHR ''A'' CHR ''Z'') (Range CHR ''a'' CHR ''z'')) c \<longleftrightarrow> is_alpha_ascii c"
proof
  assume "is_alpha_ascii c"
  then show "cset_mem True (Union (Range CHR ''A'' CHR ''Z'') (Range CHR ''a'' CHR ''z'')) c"
    using alpha_range_AZ [of c] by simp
next
  assume "cset_mem True (Union (Range CHR ''A'' CHR ''Z'') (Range CHR ''a'' CHR ''z'')) c"
  then consider "cset_mem True (Range CHR ''A'' CHR ''Z'') c" | "cset_mem True (Range CHR ''a'' CHR ''z'') c"
    by auto
  then show "is_alpha_ascii c"
  proof cases
    case 1
    then show ?thesis by (rule range_AZ_alpha)
  next
    case 2
    have a: "cp CHR ''a'' = 97" "cp CHR ''z'' = 122" by (simp_all add: cp_def)
    from 2 consider "97 \<le> cp c \<and> cp c \<le> 122"
      | "97 \<le> cp (lower_char c) \<and> cp (lower_char c) \<le> 122"
      | "97 \<le> cp (upper_char c) \<and> cp (upper_char c) \<le> 122"
      unfolding cset_mem.simps a by blast
    then show ?thesis
    proof cases
      case 1
      then show ?thesis by (simp add: is_alpha_ascii_def is_lower_ascii_def Let_def)
    next
      case 2
      then show ?thesis
        by (simp add: cp_lower_char is_alpha_ascii_def is_upper_ascii_def is_lower_ascii_def Let_def
            split: if_splits)
    next
      case 3
      then show ?thesis
        by (simp add: cp_upper_char is_alpha_ascii_def is_upper_ascii_def is_lower_ascii_def Let_def
            split: if_splits) arith
    qed
  qed
qed

lemma digit_not_space: "is_digit c \<Longrightarrow> \<not> is_space c"
  by (auto simp: is_digit_def is_space_def Let_def)

lemma alpha_not_space: "is_alpha_ascii c \<Longrightarrow> \<not> is_space c"
  by (auto simp: is_alpha_ascii_def is_upper_ascii_def is_lower_ascii_def is_space_def Let_def)

lemma alpha_not_digit: "is_alpha_ascii c \<Longrightarrow> \<not> is_digit c"
  by (auto simp: is_alpha_ascii_def is_upper_ascii_def is_lower_ascii_def is_digit_def Let_def)

lemma space_not_digit: "\<not> is_digit CHR '' ''"
  by (simp add: is_digit_def cp_def)

lemma cp_lit: "cp (Char b0 b1 b2 b3 b4 b5 b6 b7) = of_char (Char b0 b1 b2 b3 b4 b5 b6 b7)"
  by (simp add: cp_def)

lemmas lit_eval = word_def chr_eq_cp cp_lower_char cp_lit prev_after_def

lemma type_words_first:
  assumes "ty \<in> set type_names"
  shows "rxm type_words True pr (ty @ CHR '' '' # rest) g = [(ty, CHR '' '' # rest, g)]"
proof -
  have f1: "rxm type_words True pr (''Theory'' @ CHR '' '' # rest) g = [(''Theory'', CHR '' '' # rest, g)]"
    by (simp add: type_words_def lit_eval)
  have f2: "rxm type_words True pr (''Practical'' @ CHR '' '' # rest) g = [(''Practical'', CHR '' '' # rest, g)]"
    by (simp add: type_words_def lit_eval)
  have f3: "rxm type_words True pr (''Ca'' @ CHR '' '' # rest) g = [(''Ca'', CHR '' '' # rest, g)]"
    by (simp add: type_words_def lit_eval)
  have f4: "rxm type_words True pr (''Lab'' @ CHR '' '' # rest) g = [(''Lab'', CHR '' '' # rest, g)]"
    by (simp add: type_words_def lit_eval)
  have f5: "rxm type_words True pr (''Project'' @ CHR '' '' # rest) g = [(''Project'', CHR '' '' # rest, g)]"
    by (simp add: type_words_def lit_eval)
  have f6: "rxm type_words True pr (''Workshop'' @ CHR '' '' # rest) g = [(''Workshop'', CHR '' '' # rest, g)]"
    by (simp add: type_words_def lit_eval)
  have f7: "rxm type_words True pr (''Training'' @ CHR '' '' # rest) g = [(''Training'', CHR '' '' # rest, g)]"
    by (simp add: type_words_def lit_eval)
  from assms have "ty = ''Theory'' \<or> ty = ''Practical'' \<or> ty = ''Ca'' \<or> ty = ''Lab''
    \<or> ty = ''Project'' \<or> ty = ''Workshop'' \<or> ty = ''Training''"
    unfolding type_names_def by (simp only: set_simps insert_iff empty_iff simp_thms)
  then show ?thesis
    by (elim disjE; hypsubst) (rule f1 f2 f3 f4 f5 f6 f7)+
qed

lemma type_names_shape:
  assumes "ty \<in> set type_names"
  shows "ty \<noteq> [] \<and> (\<forall>c \<in> set ty. \<not> is_space c) \<and> capitalize ty = ty"
proof -
  have "list_all (\<lambda>ty. ty \<noteq> [] \<and> list_all (\<lambda>c. \<not> is_space c) ty \<and> capitalize ty = ty) type_names"
    by code_simp
  with assms show ?thesis by (auto simp: list_all_iff)
qed

lemma dashes_first: "rxm (word ''--'') True pr (CHR ''-'' # CHR ''-'' # rest) g = [(''--'', rest, g)]"
  by (simp add: lit_eval)

lemma dashes_not_digit: "is_digit c \<Longrightarrow> rxm (word ''--'') True pr (c # rest) g = []"
  by (auto simp: word_def chr_eq_cp cp_lower_char cp_lit is_digit_def Let_def)

lemma digits_not_dash: "rxm (Plus Digit) True pr (CHR ''-'' # rest) g = []"
  by (simp add: one_then_def is_digit_def cp_lit)

lemma num_or_dashes_ext:
  assumes "num_or_dashes e"
  shows "starts (rxm (Alt (Plus Digit) (word ''--'')) True pr (e @ CHR '' '' # rest) g)
           (e, CHR '' '' # rest, g)"
proof (cases "e = ''--''")
  case True
  show ?thesis unfolding True append.simps
    by (rule starts_alt2 [OF digits_not_dash]) (simp only: dashes_first starts_Cons)
next
  case False
  with assms have "e \<noteq> []" "\<forall>c \<in> set e. cset_mem True Digit c"
    by (auto simp: num_or_dashes_def digit_string_def list_all_iff)
  then show ?thesis
    by (intro starts_alt1 starts_plus) (simp_all add: space_not_digit)
qed

lemma num_or_dashes_bp:
  assumes "num_or_dashes e"
  shows "starts (rxm (Alt (word ''--'') (Plus Digit)) True pr (e @ CHR '' '' # rest) g)
           (e, CHR '' '' # rest, g)"
proof (cases "e = ''--''")
  case True
  show ?thesis unfolding True append.simps
    by (rule starts_alt1) (simp only: dashes_first starts_Cons)
next
  case False
  with assms have e: "e \<noteq> []" "\<forall>c \<in> set e. cset_mem True Digit c"
    by (auto simp: num_or_dashes_def digit_string_def list_all_iff)
  then obtain c cs where c: "e = c # cs" "is_digit c" by (cases e) auto
  show ?thesis
  proof (rule starts_alt2)
    show "rxm (word ''--'') True pr (e @ CHR '' '' # rest) g = []"
      using c by (simp add: dashes_not_digit)
    show "starts (rxm (Plus Digit) True pr (e @ CHR '' '' # rest) g) (e, CHR '' '' # rest, g)"
      using e by (intro starts_plus) (simp_all add: space_not_digit)
  qed
qed

lemma plus_not_alpha: "\<not> is_alpha_ascii CHR ''+''"
  by (simp add: is_alpha_ascii_def is_upper_ascii_def is_lower_ascii_def cp_def)

lemma grade_first:
  assumes "grade_token gr"
  shows "starts (rxm (Seq (Rep 1 2 (Union (Range CHR ''A'' CHR ''Z'') (Range CHR ''a'' CHR ''z'')))
                      (Opt (Lit CHR ''+''))) True pr gr g) (gr, [], g)"
proof -
  from assms obtain ls pl where gr: "gr = ls @ pl" and l: "1 \<le> length ls" "length ls \<le> 2"
    "\<forall>c \<in> set ls. is_alpha_ascii c" and pl: "pl = [] \<or> pl = ''+''"
    by (auto simp: grade_token_def)
  have a: "starts (rxm (Rep 1 2 (Union (Range CHR ''A'' CHR ''Z'') (Range CHR ''a'' CHR ''z'')))
      True pr (ls @ pl) g) (ls, pl, g)"
  proof (rule starts_rep)
    show "\<forall>c \<in> set ls. cset_mem True (Union (Range CHR ''A'' CHR ''Z'') (Range CHR ''a'' CHR ''z'')) c"
      using l(3) by (simp only: alpha_letters)
    show "1 \<le> length ls" "length ls \<le> 2" by fact+
    show "length ls = 2 \<or> pl = [] \<or>
        \<not> cset_mem True (Union (Range CHR ''A'' CHR ''Z'') (Range CHR ''a'' CHR ''z'')) (hd pl)"
      using pl by (auto simp only: alpha_letters plus_not_alpha list.sel)
  qed
  have b: "starts (rxm (Opt (Lit CHR ''+'')) True pr' pl g) (pl, [], g)" for pr'
    using pl by (auto simp: chr_eq_def)
  from starts_seq [OF a b] show ?thesis by (simp add: gr)
qed

lemma lazy_splits_first: "\<exists>l. lazy_splits p s = ([], s) # l"
  by (cases s) simp_all

lemma starts_lazy_name:
  assumes ne: "name \<noteq> []" and mem: "\<forall>c \<in> set name. cset_mem ci k c"
    and fail: "\<And>a b pr. name = a @ b \<Longrightarrow> a \<noteq> [] \<Longrightarrow> b \<noteq> [] \<Longrightarrow>
        rxm rest ci pr (b @ tail) (g(n \<mapsto> a)) = []"
    and ok: "starts (rxm rest ci (Some (last name)) tail (g(n \<mapsto> name))) (m2, s2, g2)"
  shows "starts (rxm (Seq (Grp n (LazyPlus k)) rest) ci prev (name @ tail) g) (name @ m2, s2, g2)"
proof -
  from ne obtain x n2 where name: "name = x # n2" by (cases name) auto
  let ?h = "\<lambda>m. g(n \<mapsto> m)"
  let ?p = "cset_mem ci k"
  have c: "rxm (Grp n (LazyPlus k)) ci prev (name @ tail) g
      = map (\<lambda>(m, r). ([x] @ m, r, ?h ([x] @ m))) (lazy_splits ?p (n2 @ tail))"
    using mem by (simp add: name one_then_def comp_def case_prod_unfold)
  have "seq_results (rxm rest ci) prev (map (\<lambda>(m, r). ([x] @ m, r, ?h ([x] @ m))) (lazy_splits ?p (n2 @ tail)))
      = seq_results (rxm rest ci) prev (map (\<lambda>(m, r). (([x] @ n2) @ m, r, ?h (([x] @ n2) @ m))) (lazy_splits ?p tail))"
  proof (rule lazy_candidates)
    show "\<forall>c \<in> set n2. ?p c" using mem name by simp
  next
    fix a b assume "n2 = a @ b" "b \<noteq> []"
    then show "rxm rest ci (prev_after prev ([x] @ a)) (b @ tail) (?h ([x] @ a)) = []"
      by (intro fail) (simp_all add: name)
  qed
  moreover obtain l where "lazy_splits ?p tail = ([], tail) # l"
    using lazy_splits_first by blast
  moreover from ok obtain l2 where "rxm rest ci (Some (last name)) tail (?h name) = (m2, s2, g2) # l2"
    by (cases "rxm rest ci (Some (last name)) tail (?h name)") auto
  ultimately have "\<exists>l3. seq_results (rxm rest ci) prev (rxm (Grp n (LazyPlus k)) ci prev (name @ tail) g)
      = (name @ m2, s2, g2) # l3"
    unfolding c using ne by (simp add: name prev_after_def)
  then show ?thesis by auto
qed

lemma grade_token_hd:
  assumes "grade_token gr"
  shows "gr \<noteq> [] \<and> is_alpha_ascii (hd gr)"
proof -
  from assms obtain ls pl where gr: "gr = ls @ pl" and l: "1 \<le> length ls"
    "\<forall>c \<in> set ls. is_alpha_ascii c"
    by (auto simp: grade_token_def)
  from l(1) obtain c cs where "ls = c # cs" by (cases ls) auto
  with gr l(2) show ?thesis by simp
qed

lemma tail_first:
  assumes ty: "ty \<in> set type_names" and internal: "digit_string internal"
    and ext: "num_or_dashes ext" and bp: "num_or_dashes bp" and gr: "grade_token gr"
  shows "starts (rxm row_tail True pr
      (CHR '' '' # ty @ CHR '' '' # internal @ CHR '' '' # ext @ CHR '' '' # bp @ CHR '' '' # gr) g)
      (CHR '' '' # ty @ CHR '' '' # internal @ CHR '' '' # ext @ CHR '' '' # bp @ CHR '' '' # gr, [],
       g(3 \<mapsto> ty, 4 \<mapsto> internal, 5 \<mapsto> ext, 6 \<mapsto> bp, 7 \<mapsto> gr))"
proof -
  let ?G = "Seq (Rep 1 2 (Union (Range CHR ''A'' CHR ''Z'') (Range CHR ''a'' CHR ''z''))) (Opt (Lit CHR ''+''))"
  let ?O7 = "Opt (Seq (Plus Space) (Grp 7 ?G))"
  let ?O6 = "Opt (Seq (Plus Space) (Grp 6 (Alt (word ''--'') (Plus Digit))))"
  let ?O5 = "Opt (Seq (Plus Space) (Grp 5 (Alt (Plus Digit) (word ''--''))))"
  let ?E = "Seq (Star Space) Eol"
  from grade_token_hd [OF gr] obtain c cs where grc: "gr = c # cs" "is_alpha_ascii c"
    by (cases gr) auto
  from internal obtain d ds where ic: "internal = d # ds" "is_digit d" "\<forall>c \<in> set internal. is_digit c"
    by (cases internal) (auto simp: digit_string_def list_all_iff)
  have nd: "e \<noteq> [] \<and> \<not> is_space (hd e)" if "num_or_dashes e" for e
    using that by (cases e) (auto simp: num_or_dashes_def digit_string_def is_space_def cp_def
        dest: digit_not_space)
  from type_names_shape [OF ty] have tyn: "ty \<noteq> []" "\<not> is_space (hd ty)" by auto
  have sp: "starts (rxm (Plus Space) True p ([CHR '' ''] @ rest) h) ([CHR '' ''], rest, h)"
    if "rest \<noteq> []" "\<not> is_space (hd rest)" for p rest h
    using that by (intro starts_plus) (simp_all add: is_space_sp)
  have s8: "starts (rxm ?E True p [] h) ([], [], h)" for p h
    by simp
  have s7: "starts (rxm (Seq ?O7 ?E) True p (CHR '' '' # gr) h) (CHR '' '' # gr, [], h(7 \<mapsto> gr))" for p h
  proof -
    have a: "starts (rxm (Plus Space) True p ([CHR '' ''] @ gr) h) ([CHR '' ''], gr, h)"
      using grc by (intro sp) (simp_all add: alpha_not_space)
    have b: "starts (rxm (Grp 7 ?G) True p' gr h) (gr, [], h(7 \<mapsto> gr))" for p'
      by (rule starts_grp) (rule grade_first [OF gr])
    have "starts (rxm ?O7 True p ([CHR '' ''] @ gr) h) ([CHR '' ''] @ gr, [], h(7 \<mapsto> gr))"
      by (rule starts_opt) (rule starts_seq [OF a b])
    from starts_seq [OF this s8] show ?thesis by (simp only: append.simps append_Nil2)
  qed
  have s6: "starts (rxm (Seq ?O6 (Seq ?O7 ?E)) True p (CHR '' '' # bp @ CHR '' '' # gr) h)
      (CHR '' '' # bp @ CHR '' '' # gr, [], h(6 \<mapsto> bp, 7 \<mapsto> gr))" for p h
  proof -
    have a: "starts (rxm (Plus Space) True p ([CHR '' ''] @ (bp @ CHR '' '' # gr)) h)
        ([CHR '' ''], bp @ CHR '' '' # gr, h)"
      using nd [OF bp] by (intro sp) simp_all
    have b: "starts (rxm (Grp 6 (Alt (word ''--'') (Plus Digit))) True p' (bp @ CHR '' '' # gr) h)
        (bp, CHR '' '' # gr, h(6 \<mapsto> bp))" for p'
      by (rule starts_grp) (rule num_or_dashes_bp [OF bp])
    have "starts (rxm ?O6 True p ([CHR '' ''] @ (bp @ CHR '' '' # gr)) h)
        ([CHR '' ''] @ bp, CHR '' '' # gr, h(6 \<mapsto> bp))"
      by (rule starts_opt) (rule starts_seq [OF a b])
    from starts_seq [OF this s7] show ?thesis by (simp only: append.simps append_assoc)
  qed
  have s5: "starts (rxm (Seq ?O5 (Seq ?O6 (Seq ?O7 ?E))) True p
      (CHR '' '' # ext @ CHR '' '' # bp @ CHR '' '' # gr) h)
      (CHR '' '' # ext @ CHR '' '' # bp @ CHR '' '' # gr, [], h(5 \<mapsto> ext, 6 \<mapsto> bp, 7 \<mapsto> gr))" for p h
  proof -
    have a: "starts (rxm (Plus Space) True p ([CHR '' ''] @ (ext @ CHR '' '' # bp @ CHR '' '' # gr)) h)
        ([CHR '' ''], ext @ CHR '' '' # bp @ CHR '' '' # gr, h)"
      using nd [OF ext] by (intro sp) simp_all
    have b: "starts (rxm (Grp 5 (Alt (Plus Digit) (word ''--''))) True p'
        (ext @ CHR '' '' # bp @ CHR '' '' # gr) h)
        (ext, CHR '' '' # bp @ CHR '' '' # gr, h(5 \<mapsto> ext))" for p'
      by (rule starts_grp) (rule num_or_dashes_ext [OF ext])
    have "starts (rxm ?O5 True p ([CHR '' ''] @ (ext @ CHR '' '' # bp @ CHR '' '' # gr)) h)
        ([CHR '' ''] @ ext, CHR '' '' # bp @ CHR '' '' # gr, h(5 \<mapsto> ext))"
      by (rule starts_opt) (rule starts_seq [OF a b])
    from starts_seq [OF this s6] show ?thesis by (simp only: append.simps append_assoc)
  qed
  have s4: "starts (rxm (Seq (Grp 4 (Plus Digit)) (Seq ?O5 (Seq ?O6 (Seq ?O7 ?E)))) True p
      (internal @ CHR '' '' # ext @ CHR '' '' # bp @ CHR '' '' # gr) h)
      (internal @ CHR '' '' # ext @ CHR '' '' # bp @ CHR '' '' # gr, [],
       h(4 \<mapsto> internal, 5 \<mapsto> ext, 6 \<mapsto> bp, 7 \<mapsto> gr))" for p h
  proof -
    have "starts (rxm (Plus Digit) True p (internal @ CHR '' '' # ext @ CHR '' '' # bp @ CHR '' '' # gr) h)
        (internal, CHR '' '' # ext @ CHR '' '' # bp @ CHR '' '' # gr, h)"
      using ic by (intro starts_plus) (simp_all add: space_not_digit)
    then have "starts (rxm (Grp 4 (Plus Digit)) True p
        (internal @ CHR '' '' # ext @ CHR '' '' # bp @ CHR '' '' # gr) h)
        (internal, CHR '' '' # ext @ CHR '' '' # bp @ CHR '' '' # gr, h(4 \<mapsto> internal))"
      by (rule starts_grp)
    from starts_seq [OF this s5] show ?thesis by (simp only: append.simps append_assoc)
  qed
  have s3: "starts (rxm (Seq (Plus Space) (Seq (Grp 4 (Plus Digit)) (Seq ?O5 (Seq ?O6 (Seq ?O7 ?E))))) True p
      (CHR '' '' # internal @ CHR '' '' # ext @ CHR '' '' # bp @ CHR '' '' # gr) h)
      (CHR '' '' # internal @ CHR '' '' # ext @ CHR '' '' # bp @ CHR '' '' # gr, [],
       h(4 \<mapsto> internal, 5 \<mapsto> ext, 6 \<mapsto> bp, 7 \<mapsto> gr))" for p h
  proof -
    have a: "starts (rxm (Plus Space) True p
        ([CHR '' ''] @ (internal @ CHR '' '' # ext @ CHR '' '' # bp @ CHR '' '' # gr)) h)
        ([CHR '' ''], internal @ CHR '' '' # ext @ CHR '' '' # bp @ CHR '' '' # gr, h)"
      using ic by (intro sp) (simp_all add: digit_not_space)
    from starts_seq [OF a s4] show ?thesis by (simp only: append.simps append_assoc)
  qed
  have s2: "starts (rxm (Seq (Grp 3 type_words) (Seq (Plus Space) (Seq (Grp 4 (Plus Digit))
        (Seq ?O5 (Seq ?O6 (Seq ?O7 ?E)))))) True p
      (ty @ CHR '' '' # internal @ CHR '' '' # ext @ CHR '' '' # bp @ CHR '' '' # gr) h)
      (ty @ CHR '' '' # internal @ CHR '' '' # ext @ CHR '' '' # bp @ CHR '' '' # gr, [],
       h(3 \<mapsto> ty, 4 \<mapsto> internal, 5 \<mapsto> ext, 6 \<mapsto> bp, 7 \<mapsto> gr))" for p h
  proof -
    have "starts (rxm type_words True p
        (ty @ CHR '' '' # internal @ CHR '' '' # ext @ CHR '' '' # bp @ CHR '' '' # gr) h)
        (ty, CHR '' '' # internal @ CHR '' '' # ext @ CHR '' '' # bp @ CHR '' '' # gr, h)"
      by (simp only: type_words_first [OF ty] starts_Cons)
    then have "starts (rxm (Grp 3 type_words) True p
        (ty @ CHR '' '' # internal @ CHR '' '' # ext @ CHR '' '' # bp @ CHR '' '' # gr) h)
        (ty, CHR '' '' # internal @ CHR '' '' # ext @ CHR '' '' # bp @ CHR '' '' # gr, h(3 \<mapsto> ty))"
      by (rule starts_grp)
    from starts_seq [OF this s3] show ?thesis by (simp only: append.simps append_assoc)
  qed
  have a: "starts (rxm (Plus Space) True pr
      ([CHR '' ''] @ (ty @ CHR '' '' # internal @ CHR '' '' # ext @ CHR '' '' # bp @ CHR '' '' # gr)) g)
      ([CHR '' ''], ty @ CHR '' '' # internal @ CHR '' '' # ext @ CHR '' '' # bp @ CHR '' '' # gr, g)"
    using tyn by (intro sp) simp_all
  have r: "row_tail = Seq (Plus Space) (Seq (Grp 3 type_words) (Seq (Plus Space) (Seq (Grp 4 (Plus Digit))
        (Seq ?O5 (Seq ?O6 (Seq ?O7 ?E))))))"
    by (simp add: row_tail_def)
  from starts_seq [OF a s2] show ?thesis unfolding r by (simp only: append.simps append_assoc)
qed

subsection \<open>Counting the spaces a pattern can match\<close>

definition ws_count :: "string \<Rightarrow> nat" where
  "ws_count s = length (filter is_space s)"

lemma ws_count_simps [simp]:
  "ws_count [] = 0"
  "ws_count (c # s) = (if is_space c then Suc (ws_count s) else ws_count s)"
  "ws_count (s @ t) = ws_count s + ws_count t"
  by (simp_all add: ws_count_def)

lemma ws_count_none: "\<forall>c \<in> set s. \<not> is_space c \<Longrightarrow> ws_count s = 0"
  by (induction s) auto

definition space_points :: "nat list" where
  "space_points = [9, 10, 11, 12, 13, 28, 29, 30, 31, 32, 133, 160]"

definition lit_ws :: "char \<Rightarrow> bool" where
  "lit_ws p = (is_space p \<or> is_space (lower_char p))"

primrec cset_ws :: "cset \<Rightarrow> bool" where
  "cset_ws Space = True"
| "cset_ws Digit = False"
| "cset_ws Dot = True"
| "cset_ws (One p) = lit_ws p"
| "cset_ws (Range a b) = list_ex (\<lambda>n. cp a \<le> n \<and> n \<le> cp b) space_points"
| "cset_ws (Union x y) = (cset_ws x \<or> cset_ws y)"

primrec ws_ok :: "rx \<Rightarrow> bool" where
  "ws_ok (Lit p) = True"
| "ws_ok (Cls k) = True"
| "ws_ok (Seq a b) = (ws_ok a \<and> ws_ok b)"
| "ws_ok (Alt a b) = (ws_ok a \<and> ws_ok b)"
| "ws_ok (Opt a) = ws_ok a"
| "ws_ok (Star k) = (k = Space \<or> \<not> cset_ws k)"
| "ws_ok (Plus k) = (k = Space \<or> \<not> cset_ws k)"
| "ws_ok (LazyPlus k) = (k = Space \<or> \<not> cset_ws k)"
| "ws_ok (Rep lo hi k) = True"
| "ws_ok (Grp n a) = ws_ok a"
| "ws_ok Bol = True"
| "ws_ok Eol = True"
| "ws_ok WordB = True"
| "ws_ok (Ahead a) = True"

primrec ws_max :: "rx \<Rightarrow> nat" where
  "ws_max (Lit p) = (if lit_ws p then 1 else 0)"
| "ws_max (Cls k) = (if cset_ws k then 1 else 0)"
| "ws_max (Seq a b) = ws_max a + ws_max b"
| "ws_max (Alt a b) = max (ws_max a) (ws_max b)"
| "ws_max (Opt a) = ws_max a"
| "ws_max (Star k) = (if cset_ws k then 1 else 0)"
| "ws_max (Plus k) = (if cset_ws k then 1 else 0)"
| "ws_max (LazyPlus k) = (if cset_ws k then 1 else 0)"
| "ws_max (Rep lo hi k) = (if cset_ws k then hi else 0)"
| "ws_max (Grp n a) = ws_max a"
| "ws_max Bol = 0"
| "ws_max Eol = 0"
| "ws_max WordB = 0"
| "ws_max (Ahead a) = 0"

lemma is_space_points: "is_space c \<longleftrightarrow> cp c \<in> set space_points"
  by (auto simp: is_space_def space_points_def Let_def)

lemma is_space_upper: "is_space c \<Longrightarrow> upper_char c = c"
  by (auto simp: is_space_def upper_char_def Let_def)

lemma chr_eq_space: "chr_eq True p c \<Longrightarrow> is_space c \<Longrightarrow> lit_ws p"
  using is_space_lower [of c] by (auto simp: chr_eq_def lit_ws_def)

lemma cset_mem_space: "cset_mem True k c \<Longrightarrow> is_space c \<Longrightarrow> cset_ws k"
proof (induction k)
  case (Range a b)
  then show ?case
    by (auto simp: is_space_lower is_space_upper is_space_points list_ex_iff)
qed (auto dest: chr_eq_space digit_not_space)

lemma single_spaced_append: "single_spaced (a @ b) \<Longrightarrow> single_spaced a \<and> single_spaced b"
proof (induction a rule: single_spaced.induct)
  case 1
  then show ?case by simp
next
  case (2 c)
  then show ?case by (cases b) auto
next
  case (3 c d cs)
  then show ?case by auto
qed

lemma single_spaced_run: "single_spaced s \<Longrightarrow> \<forall>c \<in> set s. is_space c \<Longrightarrow> length s \<le> 1"
  by (induction s rule: single_spaced.induct) auto

lemma ws_count_le_length: "ws_count s \<le> length s"
  by (simp add: ws_count_def)

lemma ws_bound:
  "m \<in> lang r True \<Longrightarrow> ws_ok r \<Longrightarrow> single_spaced m \<Longrightarrow> ws_count m \<le> ws_max r"
proof (induction r arbitrary: m)
  case (Lit p)
  then show ?case by (auto dest: chr_eq_space)
next
  case (Cls k)
  then show ?case by (auto dest: cset_mem_space)
next
  case (Seq a b)
  from Seq.prems(1) obtain x y where m: "m = x @ y" "x \<in> lang a True" "y \<in> lang b True" by auto
  with Seq.prems(3) have "single_spaced x" "single_spaced y"
    by (auto dest: single_spaced_append)
  with Seq.IH(1) [of x] Seq.IH(2) [of y] m Seq.prems(2) show ?case by simp
next
  case (Alt a b)
  then show ?case by (auto simp: max_def) (meson le_trans nat_le_linear)+
next
  case (Opt a)
  then show ?case by auto
next
  case (Star k)
  show ?case
  proof (cases "cset_ws k")
    case True
    with Star.prems have "k = Space" by simp
    with Star.prems have "\<forall>c \<in> set m. is_space c" by simp
    with Star.prems(3) have "length m \<le> 1" by (rule single_spaced_run)
    with True ws_count_le_length [of m] show ?thesis by simp
  next
    case False
    with Star.prems(1) have "\<forall>c \<in> set m. \<not> is_space c" by (auto dest: cset_mem_space)
    with False show ?thesis by (simp add: ws_count_none)
  qed
next
  case (Plus k)
  show ?case
  proof (cases "cset_ws k")
    case True
    with Plus.prems have "k = Space" by simp
    with Plus.prems have "\<forall>c \<in> set m. is_space c" by simp
    with Plus.prems(3) have "length m \<le> 1" by (rule single_spaced_run)
    with True ws_count_le_length [of m] show ?thesis by simp
  next
    case False
    with Plus.prems(1) have "\<forall>c \<in> set m. \<not> is_space c" by (auto dest: cset_mem_space)
    with False show ?thesis by (simp add: ws_count_none)
  qed
next
  case (LazyPlus k)
  show ?case
  proof (cases "cset_ws k")
    case True
    with LazyPlus.prems have "k = Space" by simp
    with LazyPlus.prems have "\<forall>c \<in> set m. is_space c" by simp
    with LazyPlus.prems(3) have "length m \<le> 1" by (rule single_spaced_run)
    with True ws_count_le_length [of m] show ?thesis by simp
  next
    case False
    with LazyPlus.prems(1) have "\<forall>c \<in> set m. \<not> is_space c" by (auto dest: cset_mem_space)
    with False show ?thesis by (simp add: ws_count_none)
  qed
next
  case (Rep lo hi k)
  show ?case
  proof (cases "cset_ws k")
    case True
    with Rep.prems(1) ws_count_le_length [of m] show ?thesis by simp
  next
    case False
    with Rep.prems(1) have "\<forall>c \<in> set m. \<not> is_space c" by (auto dest: cset_mem_space)
    with False show ?thesis by (simp add: ws_count_none)
  qed
next
  case (Grp n a)
  then show ?case by simp
qed simp_all

primrec ends_eol :: "rx \<Rightarrow> bool" where
  "ends_eol (Lit p) = False"
| "ends_eol (Cls k) = False"
| "ends_eol (Seq a b) = ends_eol b"
| "ends_eol (Alt a b) = False"
| "ends_eol (Opt a) = False"
| "ends_eol (Star k) = False"
| "ends_eol (Plus k) = False"
| "ends_eol (LazyPlus k) = False"
| "ends_eol (Rep lo hi k) = False"
| "ends_eol (Grp n a) = False"
| "ends_eol Bol = False"
| "ends_eol Eol = True"
| "ends_eol WordB = False"
| "ends_eol (Ahead a) = False"

definition row_core :: rx where
  "row_core = seqs [Plus Space,
     Grp 3 type_words,
     Plus Space,
     Grp 4 (Plus Digit),
     Opt (Seq (Plus Space) (Grp 5 (Alt (Plus Digit) (word ''--'')))),
     Opt (Seq (Plus Space) (Grp 6 (Alt (word ''--'') (Plus Digit)))),
     Opt (Seq (Plus Space) (Grp 7 (Seq
        (Rep 1 2 (Union (Range CHR ''A'' CHR ''Z'') (Range CHR ''a'' CHR ''z'')))
        (Opt (Lit CHR ''+'')))))]"

lemma rxm_ends_eol:
  "ends_eol rx \<Longrightarrow> (m, r, g') \<in> set (rxm rx ci prev s g) \<Longrightarrow> r = [] \<or> r = [CHR 0x0A]"
proof (induction rx arbitrary: m r g' prev s g)
  case (Seq a b)
  from Seq.prems(2) obtain m1 s1 g1 m2 where
    "(m2, r, g') \<in> set (rxm b ci (prev_after prev m1) s1 g1)"
    by (auto simp: in_seq_results)
  with Seq.IH(2) Seq.prems(1) show ?case by simp
qed (auto split: if_splits)

lemma lang_SeqI: "x \<in> lang a ci \<Longrightarrow> y \<in> lang b ci \<Longrightarrow> x @ y \<in> lang (Seq a b) ci"
  by auto

lemma lang_split_end:
  assumes "m \<in> lang (seqs [a1, a2, a3, a4, a5, a6, a7, Star Space, Eol]) ci"
  shows "\<exists>m0 sp. m = m0 @ sp \<and> m0 \<in> lang (seqs [a1, a2, a3, a4, a5, a6, a7]) ci
    \<and> (\<forall>c \<in> set sp. is_space c)"
proof -
  from assms obtain x1 x2 x3 x4 x5 x6 x7 sp where
    m: "m = x1 @ x2 @ x3 @ x4 @ x5 @ x6 @ x7 @ sp" and
    x: "x1 \<in> lang a1 ci" "x2 \<in> lang a2 ci" "x3 \<in> lang a3 ci" "x4 \<in> lang a4 ci"
       "x5 \<in> lang a5 ci" "x6 \<in> lang a6 ci" "x7 \<in> lang a7 ci" and
    sp: "\<forall>c \<in> set sp. is_space c"
    by auto
  from x have "x1 @ x2 @ x3 @ x4 @ x5 @ x6 @ x7 \<in> lang (seqs [a1, a2, a3, a4, a5, a6, a7]) ci"
    unfolding seqs.simps by (intro lang_SeqI)
  with m sp show ?thesis by (intro exI [of _ "x1 @ x2 @ x3 @ x4 @ x5 @ x6 @ x7"] exI [of _ sp]) simp
qed

lemma lang_plus_space_hd:
  "m \<in> lang (Seq (Plus Space) r) ci \<Longrightarrow> m \<noteq> [] \<and> is_space (hd m)"
  by (auto simp: hd_append)

lemma row_core_ws: "ws_ok row_core \<and> ws_max row_core = 5"
  by code_simp

lemma newline_space: "is_space (CHR 0x0A)"
  by (simp add: is_space_def cp_def)

lemma shorter_name_fails:
  assumes ss: "single_spaced (b @ tail)" and bne: "b \<noteq> []" and tne: "tail \<noteq> []"
    and tl: "\<not> is_space (last tail)" and cnt: "ws_count tail = 5"
  shows "rxm row_tail True pr (b @ tail) g = []"
proof (rule ccontr)
  assume "rxm row_tail True pr (b @ tail) g \<noteq> []"
  then obtain m r g' where i: "(m, r, g') \<in> set (rxm row_tail True pr (b @ tail) g)"
    by (cases "rxm row_tail True pr (b @ tail) g") auto
  from rxm_sound [OF i] have z: "b @ tail = m @ r" and l: "m \<in> lang row_tail True" by auto
  have "ends_eol row_tail" by (simp add: row_tail_def)
  from rxm_ends_eol [OF this i] have "r = [] \<or> r = [CHR 0x0A]" .
  moreover have "r \<noteq> [CHR 0x0A]"
  proof
    assume "r = [CHR 0x0A]"
    with z have "last (b @ tail) = CHR 0x0A" by simp
    with tne tl newline_space show False by simp
  qed
  ultimately have m: "m = b @ tail" using z by simp
  from l obtain m0 sp where s: "m = m0 @ sp" "m0 \<in> lang row_core True" "\<forall>c \<in> set sp. is_space c"
    unfolding row_tail_def row_core_def by (blast dest: lang_split_end)
  have "sp = []"
  proof (rule ccontr)
    assume "sp \<noteq> []"
    with s(1,3) have "is_space (last m)" by simp
    with m tne tl show False by simp
  qed
  with s have c: "m \<in> lang row_core True" by simp
  from ws_bound [OF c] row_core_ws ss m have "ws_count m \<le> 5" by simp
  moreover obtain R where "row_tail = Seq (Plus Space) R"
    by (simp add: row_tail_def)
  with l have "m \<in> lang (Seq (Plus Space) R) True" by simp
  then have "is_space (hd m)" by (rule lang_plus_space_hd [THEN conjunct2])
  with m bne have "is_space (hd b)" by simp
  with bne have "1 \<le> ws_count b" by (cases b) auto
  with cnt m have "6 \<le> ws_count m" by simp
  ultimately show False by simp
qed

lemma single_spaced_free: "\<forall>c \<in> set y. \<not> is_space c \<Longrightarrow> single_spaced w \<Longrightarrow> single_spaced (y @ w)"
proof (induction y)
  case Nil
  then show ?case by simp
next
  case (Cons c y)
  then have "single_spaced (y @ w)" by simp
  with Cons.prems(1) show ?case by (cases "y @ w") auto
qed

lemma single_spaced_sep:
  "y \<noteq> [] \<Longrightarrow> \<forall>c \<in> set y. \<not> is_space c \<Longrightarrow> single_spaced w \<Longrightarrow> single_spaced (c # y @ w)"
  using single_spaced_free [of y w] by (cases y) auto

lemma single_spaced_glue:
  "single_spaced x \<Longrightarrow> single_spaced w \<Longrightarrow> x = [] \<or> \<not> is_space (last x) \<Longrightarrow> single_spaced (x @ w)"
proof (induction x rule: single_spaced.induct)
  case 1
  then show ?case by simp
next
  case (2 c)
  then show ?case by (cases w) auto
next
  case (3 c d cs)
  then show ?case by auto
qed

subsection \<open>The canonical text of a row\<close>

text \<open>Modelled from the spec: the re-formatting of a parsed row, which the source does not
  have. The seven fields, with "--" already in the place of an absent optional group,
  are written in order with one space between them.\<close>

fun join_sp :: "string list \<Rightarrow> string" where
  "join_sp [] = []"
| "join_sp [x] = x"
| "join_sp (x # y # ys) = x @ CHR '' '' # join_sp (y # ys)"

definition format_row :: "string list \<Rightarrow> string" where
  "format_row r = join_sp r"

lemma digit_string_free: "digit_string d \<Longrightarrow> d \<noteq> [] \<and> (\<forall>c \<in> set d. \<not> is_space c)"
  by (auto simp: digit_string_def list_all_iff dest: digit_not_space)

lemma dash_not_space: "\<not> is_space CHR ''-''"
  by (simp add: is_space_def cp_def)

lemma plus_not_space: "\<not> is_space CHR ''+''"
  by (simp add: is_space_def cp_def)

lemma num_or_dashes_free: "num_or_dashes e \<Longrightarrow> e \<noteq> [] \<and> (\<forall>c \<in> set e. \<not> is_space c)"
  by (auto simp: num_or_dashes_def dash_not_space dest: digit_string_free)

lemma grade_token_free: "grade_token gr \<Longrightarrow> gr \<noteq> [] \<and> (\<forall>c \<in> set gr. \<not> is_space c)"
  using grade_token_hd [of gr]
  by (auto simp: grade_token_def plus_not_space dest: alpha_not_space)

lemma code_shape_free:
  assumes "code_shape code"
  shows "code \<noteq> [] \<and> (\<forall>c \<in> set code. \<not> is_space c)"
proof -
  from assms have l: "length code = 6" and a: "\<forall>c \<in> set (take 3 code). is_alpha_ascii c"
    and d: "\<forall>c \<in> set (drop 3 code). is_digit c"
    by (auto simp: code_shape_def list_all_iff)
  have "set code = set (take 3 code) \<union> set (drop 3 code)"
    by (metis append_take_drop_id set_append)
  with a d have "\<forall>c \<in> set code. \<not> is_space c"
    by (auto dest: alpha_not_space digit_not_space)
  with l show ?thesis by auto
qed

lemma canonical_reparse:
  assumes hc: "code_shape code" and hn: "normal name" "name \<noteq> []"
    and ht: "ty \<in> set type_names" and hi: "digit_string internal"
    and he: "num_or_dashes ext" and hb: "num_or_dashes bp" and hg: "grade_token gr"
  shows "parse_row_to_columns (format_row [code, name, ty, internal, ext, bp, gr])
      = Some [code, name, ty, internal, ext, bp, gr]"
proof -
  define tail where "tail = CHR '' '' # ty @ CHR '' '' # internal @ CHR '' '' # ext @ CHR '' '' # bp @ CHR '' '' # gr"
  define canon where "canon = code @ CHR '' '' # name @ tail"
  have f: "format_row [code, name, ty, internal, ext, bp, gr] = canon"
    by (simp add: format_row_def canon_def tail_def)
  note tyf = type_names_shape [OF ht]
  note inf = digit_string_free [OF hi]
  note exf = num_or_dashes_free [OF he]
  note bpf = num_or_dashes_free [OF hb]
  note grf = grade_token_free [OF hg]
  note cof = code_shape_free [OF hc]
  from hn have nsp: "\<forall>c \<in> set name. is_space c \<longrightarrow> c = CHR '' ''" and nss: "single_spaced name"
    and nhd: "\<not> is_space (hd name)" and nlast: "\<not> is_space (last name)"
    by (auto simp: normal_def)
  have tne: "tail \<noteq> []" by (simp add: tail_def)
  have tlast: "\<not> is_space (last tail)" using grf by (simp add: tail_def)
  have tcnt: "ws_count tail = 5"
    using tyf inf exf bpf grf by (simp add: tail_def ws_count_none is_space_sp)
  have tss: "single_spaced tail"
  proof -
    have "single_spaced (CHR '' '' # gr @ [])"
      by (rule single_spaced_sep) (use grf in simp_all)
    then have a: "single_spaced (CHR '' '' # gr)" by simp
    have b: "single_spaced (CHR '' '' # bp @ CHR '' '' # gr)"
      by (rule single_spaced_sep) (use bpf a in simp_all)
    have c: "single_spaced (CHR '' '' # ext @ CHR '' '' # bp @ CHR '' '' # gr)"
      by (rule single_spaced_sep) (use exf b in simp_all)
    have d: "single_spaced (CHR '' '' # internal @ CHR '' '' # ext @ CHR '' '' # bp @ CHR '' '' # gr)"
      by (rule single_spaced_sep) (use inf c in simp_all)
    show ?thesis
      unfolding tail_def by (rule single_spaced_sep) (use tyf d in simp_all)
  qed
  have ntss: "single_spaced (name @ tail)"
    using nss tss nlast by (intro single_spaced_glue) simp_all
  have canon_normal: "normal canon"
  proof -
    have "single_spaced (CHR '' '' # name @ tail)"
      using ntss nhd hn(2) by (cases name) auto
    with cof have "single_spaced canon"
      unfolding canon_def by (intro single_spaced_free) simp_all
    moreover have "\<forall>c \<in> set canon. is_space c \<longrightarrow> c = CHR '' ''"
      using cof nsp tyf inf exf bpf grf by (auto simp: canon_def tail_def)
    moreover have "\<not> is_space (hd canon)" using cof by (cases code) (auto simp: canon_def)
    moreover have "\<not> is_space (last canon)" using tlast tne by (simp add: canon_def)
    ultimately show ?thesis by (simp add: normal_def)
  qed
  have dot: "\<forall>c \<in> set name. cset_mem True Dot c"
  proof
    fix c assume "c \<in> set name"
    with nsp have "is_space c \<longrightarrow> c = CHR '' ''" by simp
    with newline_space show "cset_mem True Dot c" by auto
  qed
  let ?g0 = "\<lambda>_::nat. None :: string option"
  let ?G = "?g0(1 \<mapsto> code, 2 \<mapsto> name, 3 \<mapsto> ty, 4 \<mapsto> internal, 5 \<mapsto> ext, 6 \<mapsto> bp, 7 \<mapsto> gr)"
  have s5: "starts (rxm (Seq (Grp 2 (LazyPlus Dot)) row_tail) True p (name @ tail) (?g0(1 \<mapsto> code)))
      (name @ tail, [], ?G)" for p
  proof (rule starts_lazy_name [where ?m2.0 = tail and ?s2.0 = "[]", OF hn(2) dot])
    fix a b pr assume ab: "name = a @ b" "a \<noteq> []" "b \<noteq> []"
    from ntss ab(1) have "single_spaced (b @ tail)"
      using single_spaced_append [of a "b @ tail"] by simp
    then show "rxm row_tail True pr (b @ tail) (?g0(1 \<mapsto> code, 2 \<mapsto> a)) = []"
      using ab(3) tne tlast tcnt by (rule shorter_name_fails)
  next
    show "starts (rxm row_tail True (Some (last name)) tail (?g0(1 \<mapsto> code, 2 \<mapsto> name))) (tail, [], ?G)"
      unfolding tail_def by (rule tail_first [OF ht hi he hb hg])
  qed
  have s4: "starts (rxm (Seq (Plus Space) (Seq (Grp 2 (LazyPlus Dot)) row_tail)) True p
      (CHR '' '' # name @ tail) (?g0(1 \<mapsto> code))) (CHR '' '' # name @ tail, [], ?G)" for p
  proof -
    have a: "starts (rxm (Plus Space) True p ([CHR '' ''] @ (name @ tail)) (?g0(1 \<mapsto> code)))
        ([CHR '' ''], name @ tail, ?g0(1 \<mapsto> code))"
      using hn(2) nhd by (intro starts_plus) (simp_all add: is_space_sp)
    from starts_seq [OF a s5] show ?thesis by (simp only: append.simps)
  qed
  let ?C = "Seq (Rep 3 3 (Range CHR ''A'' CHR ''Z'')) (Rep 3 3 Digit)"
  have s3: "starts (rxm (Seq (Grp 1 ?C) (Seq (Plus Space) (Seq (Grp 2 (LazyPlus Dot)) row_tail))) True p
      canon ?g0) (canon, [], ?G)" for p
  proof -
    from hc have l: "length code = 6" and al: "\<forall>c \<in> set (take 3 code). is_alpha_ascii c"
      and dg: "\<forall>c \<in> set (drop 3 code). is_digit c"
      by (auto simp: code_shape_def list_all_iff)
    have c: "code = take 3 code @ drop 3 code" by simp
    have a: "starts (rxm (Rep 3 3 (Range CHR ''A'' CHR ''Z'')) True p
        (take 3 code @ (drop 3 code @ CHR '' '' # name @ tail)) ?g0)
        (take 3 code, drop 3 code @ CHR '' '' # name @ tail, ?g0)"
      using al l by (intro starts_rep) (simp_all only: alpha_range_AZ, simp_all)
    have b: "starts (rxm (Rep 3 3 Digit) True p' (drop 3 code @ (CHR '' '' # name @ tail)) ?g0)
        (drop 3 code, CHR '' '' # name @ tail, ?g0)" for p'
      using dg l by (intro starts_rep) simp_all
    from starts_seq [OF a b]
    have "starts (rxm ?C True p (code @ CHR '' '' # name @ tail) ?g0)
        (code, CHR '' '' # name @ tail, ?g0)"
      by (simp only: append_assoc [symmetric] append_take_drop_id)
    then have "starts (rxm (Grp 1 ?C) True p (code @ CHR '' '' # name @ tail) ?g0)
        (code, CHR '' '' # name @ tail, ?g0(1 \<mapsto> code))"
      by (rule starts_grp)
    from starts_seq [OF this s4] show ?thesis by (simp only: canon_def)
  qed
  have s2: "starts (rxm (Seq (Star Space) (Seq (Grp 1 ?C) (Seq (Plus Space)
      (Seq (Grp 2 (LazyPlus Dot)) row_tail)))) True p canon ?g0) (canon, [], ?G)" for p
  proof -
    have a: "starts (rxm (Star Space) True p ([] @ canon) ?g0) ([], canon, ?g0)"
      using cof by (intro starts_star) (cases code, simp_all add: canon_def)
    from starts_seq [OF a s3] show ?thesis by (simp only: append.simps)
  qed
  have "starts (rxm row_pattern True None canon ?g0) (canon, [], ?G)"
  proof -
    have a: "starts (rxm Bol True None canon ?g0) ([], canon, ?g0)" by simp
    from starts_seq [OF a s2] show ?thesis
      unfolding row_pattern_split by (simp only: append.simps)
  qed
  then have m: "re_match True row_pattern canon = Some (canon, ?G)"
    by (cases "rxm row_pattern True None canon ?g0") (auto simp: re_match_def)
  have "sub_ws (strip canon) = canon" using canon_normal by (rule normal_fixed)
  moreover have "strip name = name"
    using hn nhd nlast by (intro strip_id) simp
  moreover have "capitalize ty = ty" using tyf by simp
  ultimately show ?thesis
    using m exf bpf grf by (simp add: f parse_row_to_columns_def group_def or_dashes_def)
qed

subsection \<open>What a parsed row is made of\<close>

lemma single_spaced_joint:
  "single_spaced (x @ y) \<Longrightarrow> x \<noteq> [] \<Longrightarrow> y \<noteq> [] \<Longrightarrow> \<not> (is_space (last x) \<and> is_space (hd y))"
proof (induction x rule: single_spaced.induct)
  case 1
  then show ?case by simp
next
  case (2 c)
  then show ?case by (cases y) auto
next
  case (3 c d cs)
  then show ?case by auto
qed

lemma dash_eq:
  assumes "chr_eq True CHR ''-'' c"
  shows "c = CHR ''-''"
proof -
  from assms have "c = CHR ''-'' \<or> cp c = 45" by (auto simp: lit_eval split: if_splits)
  moreover have "cp CHR ''-'' = 45" by (simp add: cp_def)
  ultimately show ?thesis using cp_inj [of c "CHR ''-''"] by auto
qed

lemma plus_eq:
  assumes "chr_eq True CHR ''+'' c"
  shows "c = CHR ''+''"
proof -
  from assms have "c = CHR ''+'' \<or> cp c = 43" by (auto simp: lit_eval split: if_splits)
  moreover have "cp CHR ''+'' = 43" by (simp add: cp_def)
  ultimately show ?thesis using cp_inj [of c "CHR ''+''"] by auto
qed

lemma type_words_names:
  assumes "t \<in> lang type_words True"
  shows "capitalize t \<in> set type_names"
proof -
  from assms consider "t \<in> lang (word ''Theory'') True" | "t \<in> lang (word ''Practical'') True"
    | "t \<in> lang (word ''CA'') True" | "t \<in> lang (word ''Lab'') True"
    | "t \<in> lang (word ''Project'') True" | "t \<in> lang (word ''Workshop'') True"
    | "t \<in> lang (word ''Training'') True"
    unfolding type_words_def lang.simps by blast
  then show ?thesis
  proof cases
    case 1
    have "capitalize ''Theory'' = ''Theory''" by code_simp
    with word_capitalize [OF 1] show ?thesis by (simp add: type_names_def)
  next
    case 2
    have "capitalize ''Practical'' = ''Practical''" by code_simp
    with word_capitalize [OF 2] show ?thesis by (simp add: type_names_def)
  next
    case 3
    have "capitalize ''CA'' = ''Ca''" by code_simp
    with word_capitalize [OF 3] show ?thesis by (simp add: type_names_def)
  next
    case 4
    have "capitalize ''Lab'' = ''Lab''" by code_simp
    with word_capitalize [OF 4] show ?thesis by (simp add: type_names_def)
  next
    case 5
    have "capitalize ''Project'' = ''Project''" by code_simp
    with word_capitalize [OF 5] show ?thesis by (simp add: type_names_def)
  next
    case 6
    have "capitalize ''Workshop'' = ''Workshop''" by code_simp
    with word_capitalize [OF 6] show ?thesis by (simp add: type_names_def)
  next
    case 7
    have "capitalize ''Training'' = ''Training''" by code_simp
    with word_capitalize [OF 7] show ?thesis by (simp add: type_names_def)
  qed
qed

lemma lang_plus_digit: "d \<in> lang (Plus Digit) True \<Longrightarrow> digit_string d"
  by (simp add: digit_string_def list_all_iff)

lemma lang_dashes: "e \<in> lang (word ''--'') True \<Longrightarrow> e = ''--''"
  by (auto simp: word_def dest!: dash_eq)

lemma lang_num_or_dashes1:
  "e \<in> lang (Alt (Plus Digit) (word ''--'')) True \<Longrightarrow> num_or_dashes e"
  unfolding lang.simps(4) num_or_dashes_def
  by (blast dest: lang_plus_digit lang_dashes)

lemma lang_num_or_dashes2:
  "e \<in> lang (Alt (word ''--'') (Plus Digit)) True \<Longrightarrow> num_or_dashes e"
  unfolding lang.simps(4) num_or_dashes_def
  by (blast dest: lang_plus_digit lang_dashes)

lemma lang_grade:
  assumes "gr \<in> lang (Seq (Rep 1 2 (Union (Range CHR ''A'' CHR ''Z'') (Range CHR ''a'' CHR ''z'')))
      (Opt (Lit CHR ''+''))) True"
  shows "grade_token gr"
proof -
  from assms obtain ls pl where g: "gr = ls @ pl"
    and ls: "ls \<in> lang (Rep 1 2 (Union (Range CHR ''A'' CHR ''Z'') (Range CHR ''a'' CHR ''z''))) True"
    and pl: "pl \<in> lang (Opt (Lit CHR ''+'')) True"
    unfolding lang.simps(3) by blast
  from ls have "1 \<le> length ls \<and> length ls \<le> 2
      \<and> (\<forall>c \<in> set ls. cset_mem True (Union (Range CHR ''A'' CHR ''Z'') (Range CHR ''a'' CHR ''z'')) c)"
    unfolding lang.simps by blast
  then have "1 \<le> length ls" "length ls \<le> 2" "\<forall>c \<in> set ls. is_alpha_ascii c"
    unfolding alpha_letters by blast+
  moreover from pl have "pl = [] \<or> pl = ''+''" by (auto dest!: plus_eq)
  ultimately show ?thesis unfolding grade_token_def using g by blast
qed

lemma num_or_dashes_opt:
  assumes "\<And>e. x = Some e \<Longrightarrow> num_or_dashes e"
  shows "num_or_dashes (or_dashes x)"
proof (cases x)
  case None
  then show ?thesis by (simp add: or_dashes_def num_or_dashes_def)
next
  case (Some e)
  with assms have "num_or_dashes e" by simp
  moreover from this have "e \<noteq> []" by (auto simp: num_or_dashes_def digit_string_def)
  ultimately show ?thesis using Some by (simp add: or_dashes_def)
qed

lemma glang_row_tail2: "glang row_tail True 2 = {}"
  by (simp add: row_tail_def glang_type_words glang_word)

lemma rxm_SeqE:
  "(m, r, g') \<in> set (rxm (Seq a b) ci prev s g) \<Longrightarrow>
     \<exists>m1 s1 g1 m2. (m1, s1, g1) \<in> set (rxm a ci prev s g)
       \<and> (m2, r, g') \<in> set (rxm b ci (prev_after prev m1) s1 g1) \<and> m = m1 @ m2"
  by (auto simp: in_seq_results)

lemma row_name_normal:
  assumes m: "re_match True row_pattern t = Some m" and n: "normal t"
  shows "normal (group m 2) \<and> group m 2 \<noteq> []"
proof -
  obtain whole G where mt: "m = (whole, G)" by (cases m)
  let ?g0 = "\<lambda>_::nat. None :: string option"
  from m mt obtain rest where i: "(whole, rest, G) \<in> set (rxm row_pattern True None t ?g0)"
    unfolding re_match_def by (cases "rxm row_pattern True None t ?g0") auto
  define C where "C = Grp 1 (Seq (Rep 3 3 (Range CHR ''A'' CHR ''Z'')) (Rep 3 3 Digit))"
  define N where "N = Grp 2 (LazyPlus Dot)"
  have rp: "row_pattern = Seq Bol (Seq (Star Space) (Seq C (Seq (Plus Space) (Seq N row_tail))))"
    by (simp add: row_pattern_split C_def N_def)
  from rxm_SeqE [OF i [unfolded rp]] obtain x1 s1 g1 w1 where
    j1: "(x1, s1, g1) \<in> set (rxm Bol True None t ?g0)" and
    i1: "(w1, rest, G) \<in> set (rxm (Seq (Star Space) (Seq C (Seq (Plus Space) (Seq N row_tail))))
      True (prev_after None x1) s1 g1)"
    by blast
  from rxm_SeqE [OF i1] obtain x2 s2 g2 w2 where
    j2: "(x2, s2, g2) \<in> set (rxm (Star Space) True (prev_after None x1) s1 g1)" and
    i2: "(w2, rest, G) \<in> set (rxm (Seq C (Seq (Plus Space) (Seq N row_tail)))
      True (prev_after (prev_after None x1) x2) s2 g2)"
    by blast
  from rxm_SeqE [OF i2] obtain x3 s3 g3 w3 where
    j3: "(x3, s3, g3) \<in> set (rxm C True (prev_after (prev_after None x1) x2) s2 g2)" and
    i3: "(w3, rest, G) \<in> set (rxm (Seq (Plus Space) (Seq N row_tail))
      True (prev_after (prev_after (prev_after None x1) x2) x3) s3 g3)"
    by blast
  define p3 where "p3 = prev_after (prev_after (prev_after None x1) x2) x3"
  from rxm_SeqE [OF i3] obtain sp s4 g4 w4 where
    sp: "(sp, s4, g4) \<in> set (rxm (Plus Space) True p3 s3 g3)" and
    i4: "(w4, rest, G) \<in> set (rxm (Seq N row_tail) True (prev_after p3 sp) s4 g4)"
    unfolding p3_def by blast
  from rxm_SeqE [OF i4] obtain nm s5 g5 tl where
    nm: "(nm, s5, g5) \<in> set (rxm N True (prev_after p3 sp) s4 g4)" and
    tl: "(tl, rest, G) \<in> set (rxm row_tail True (prev_after (prev_after p3 sp) nm) s5 g5)"
    by blast
  from rxm_sound [OF j1] have t1: "t = x1 @ s1" by simp
  from rxm_sound [OF j2] have t2: "s1 = x2 @ s2" by simp
  from rxm_sound [OF j3] have t3: "s2 = x3 @ s3" by simp
  from rxm_sound [OF sp] have s3: "s3 = sp @ s4" and spl: "sp \<noteq> []" "\<forall>c \<in> set sp. is_space c"
    by auto
  from rxm_sound [OF nm] have s4: "s4 = nm @ s5" and "nm \<in> lang N True" by simp_all
  then have nml: "nm \<noteq> []" by (simp add: N_def)
  from nm have g5: "g5 2 = Some nm" unfolding N_def rxm.simps by auto
  from rxm_sound [OF tl] have s5: "s5 = tl @ rest" and tll: "tl \<in> lang row_tail True" by auto
  obtain R where "row_tail = Seq (Plus Space) R" by (simp add: row_tail_def)
  with tll have "tl \<in> lang (Seq (Plus Space) R) True" by simp
  then have tlh: "tl \<noteq> [] \<and> is_space (hd tl)" by (rule lang_plus_space_hd)
  have G2: "G 2 = Some nm"
  proof -
    from rxm_sets [OF tl, of 2] g5 obtain u where u: "G 2 = Some u" by auto
    from rxm_groups [OF tl u] g5 show ?thesis by (simp add: u glang_row_tail2)
  qed
  have t: "t = (x1 @ x2 @ x3) @ sp @ nm @ tl @ rest"
    unfolding t1 t2 t3 s3 s4 s5 by simp
  from n have ts: "single_spaced t" and tc: "\<forall>c \<in> set t. is_space c \<longrightarrow> c = CHR '' ''"
    by (auto simp: normal_def)
  from ts have "single_spaced ((x1 @ x2 @ x3) @ sp @ nm @ tl @ rest)" unfolding t .
  then have a: "single_spaced (sp @ nm @ tl @ rest)" by (blast dest: single_spaced_append)
  then have b: "single_spaced (nm @ tl @ rest)" by (blast dest: single_spaced_append)
  from b have c: "single_spaced ((nm @ tl) @ rest)" by simp
  then have d: "single_spaced (nm @ tl)" by (blast dest: single_spaced_append)
  then have e: "single_spaced nm" by (blast dest: single_spaced_append)
  from spl have "is_space (last sp)" by simp
  with single_spaced_joint [OF a spl(1)] nml have h: "\<not> is_space (hd nm)" by (simp add: hd_append)
  from single_spaced_joint [OF d nml] tlh have l: "\<not> is_space (last nm)" by simp
  from tc have "\<forall>c \<in> set nm. is_space c \<longrightarrow> c = CHR '' ''" unfolding t by simp
  with e h l have "normal nm" by (simp add: normal_def)
  with nml G2 mt show ?thesis by (simp add: group_def)
qed

lemma parse_row_fields:
  assumes p: "parse_row_to_columns raw = Some r" and gr: "r ! 6 \<noteq> ''--''"
  shows "\<exists>code name ty internal ext bp gr. r = [code, name, ty, internal, ext, bp, gr]
    \<and> code_shape code \<and> normal name \<and> name \<noteq> [] \<and> ty \<in> set type_names \<and> digit_string internal
    \<and> num_or_dashes ext \<and> num_or_dashes bp \<and> grade_token gr"
proof -
  from p obtain m where
    m: "re_match True row_pattern (sub_ws (strip raw)) = Some m" and
    r: "r = [group m 1, strip (group m 2), capitalize (group m 3), group m 4,
             or_dashes (snd m 5), or_dashes (snd m 6), or_dashes (snd m 7)]"
    by (auto simp: parse_row_to_columns_def Let_def split: option.splits)
  have s1: "sets_group row_pattern 1" and s3: "sets_group row_pattern 3"
    and s4: "sets_group row_pattern 4"
    by (simp_all add: row_pattern_def)
  from re_match_group(2) [OF m s1] obtain c where c: "snd m 1 = Some c" by auto
  from re_match_group(2) [OF m s3] obtain t where t: "snd m 3 = Some t" by auto
  from re_match_group(2) [OF m s4] obtain d where d: "snd m 4 = Some d" by auto
  have g1: "glang row_pattern True 1 = lang (Seq (Rep 3 3 (Range CHR ''A'' CHR ''Z'')) (Rep 3 3 Digit)) True"
    and g3: "glang row_pattern True 3 = lang type_words True"
    and g4: "glang row_pattern True 4 = lang (Plus Digit) True"
    and g5: "glang row_pattern True 5 = lang (Alt (Plus Digit) (word ''--'')) True"
    and g6: "glang row_pattern True 6 = lang (Alt (word ''--'') (Plus Digit)) True"
    and g7: "glang row_pattern True 7 = lang (Seq (Rep 1 2 (Union (Range CHR ''A'' CHR ''Z'') (Range CHR ''a'' CHR ''z'')))
      (Opt (Lit CHR ''+''))) True"
    by (simp_all only: row_pattern_def seqs.simps glang.simps glang_type_words glang_word) simp_all
  from re_match_group(1) [OF m c] have c1: "code_shape (group m 1)"
    unfolding g1 using c by (simp add: group_def code_lang_shape)
  from re_match_group(1) [OF m t] have c3: "capitalize (group m 3) \<in> set type_names"
    unfolding g3 using t by (simp add: group_def type_words_names)
  from re_match_group(1) [OF m d] have c4: "digit_string (group m 4)"
    unfolding g4 using d by (simp add: group_def lang_plus_digit)
  have c5: "num_or_dashes (or_dashes (snd m 5))"
    using re_match_group(1) [OF m, of 5] unfolding g5
    by (intro num_or_dashes_opt lang_num_or_dashes1)
  have c6: "num_or_dashes (or_dashes (snd m 6))"
    using re_match_group(1) [OF m, of 6] unfolding g6
    by (intro num_or_dashes_opt lang_num_or_dashes2)
  from gr r obtain g where g: "snd m 7 = Some g" and gg: "or_dashes (snd m 7) = g"
    by (cases "snd m 7") (auto simp: or_dashes_def split: if_splits)
  from re_match_group(1) [OF m g] have c7: "grade_token (or_dashes (snd m 7))"
    unfolding g7 gg by (rule lang_grade)
  from row_name_normal [OF m normal_sub_ws_strip] have nn: "normal (group m 2)" "group m 2 \<noteq> []"
    by auto
  then have "strip (group m 2) = group m 2" by (intro strip_id) (simp add: normal_def)
  with r nn c1 c3 c4 c5 c6 c7 show ?thesis by simp
qed




end
